theory Spec2Isabelle
  imports Main "HOL-Library.Word"
begin

section \<open>Values of the two scripts\<close>

text \<open>
  The repository holds two scripts. \<^verbatim>\<open>read.py\<close> reads an embroidery file through
  pyembroidery and writes the flat binary container (the exporter, the specification's
  Encode); \<^verbatim>\<open>write.py\<close> reads the container back and hands the pattern to pyembroidery
  (the importer, the specification's Decode). The Python standard library calls they make
  (\<^verbatim>\<open>struct.pack\<close>, \<^verbatim>\<open>struct.unpack\<close>, \<^verbatim>\<open>json.dumps\<close>, \<^verbatim>\<open>json.loads\<close>,
  \<^verbatim>\<open>str.encode\<close>, \<^verbatim>\<open>bytes.decode\<close>, \<^verbatim>\<open>file.read\<close>) are modelled here as CPython
  defines them; pyembroidery's file parsing and writing stay outside.
\<close>

type_synonym byte = "8 word"

text \<open>A Python \<^verbatim>\<open>str\<close> is a sequence of code points.\<close>

type_synonym pystr = "nat list"

abbreviation lit :: "string \<Rightarrow> pystr" where
  "lit s \<equiv> map of_char s"

text \<open>
  The exceptions that the two \<^verbatim>\<open>main\<close> functions can raise after the embroidery file has
  been read. \<open>StructError\<close> is \<^verbatim>\<open>struct.error\<close>; \<open>JSONDecodeError\<close> is
  \<^verbatim>\<open>json.JSONDecodeError\<close>. \<open>FuelExhausted\<close> belongs to the model only: the JSON
  parser below is given a step budget, and \<open>parse_fuel\<close> shows that the budget
  \<open>json_loads\<close> hands out is never used up.
\<close>

datatype error =
    StructError
  | UnicodeDecodeError
  | UnicodeEncodeError
  | JSONDecodeError
  | TypeError
  | AttributeError
  | FuelExhausted

text \<open>
  The Python objects that \<^verbatim>\<open>json.loads\<close> returns and \<^verbatim>\<open>json.dumps\<close> accepts. A
  \<^verbatim>\<open>dict\<close> keeps insertion order and has unique keys: an association list. A
  \<^verbatim>\<open>float\<close> is kept as the decimal literal that denotes it (its binary value is not
  modelled, and no statement below depends on it).
\<close>

datatype pyval =
    PNone
  | PBool bool
  | PInt int
  | PFloat pystr
  | PStr pystr
  | PList "pyval list"
  | PDict "(pystr \<times> pyval) list"

text \<open>
  \<^verbatim>\<open>pyembroidery.EmbThread\<close>: the seven attributes its constructor sets, which are the
  seven that \<^verbatim>\<open>thread_to_dict\<close> reads and \<^verbatim>\<open>dict_to_thread\<close> assigns.
\<close>

record thread =
  color :: pyval
  description :: pyval
  catalog_number :: pyval
  details :: pyval
  brand :: pyval
  chart :: pyval
  weight :: pyval

text \<open>A stitch row \<^verbatim>\<open>(x, y, command)\<close> of Python integers.\<close>

type_synonym stitch = "int \<times> int \<times> int"

section \<open>\<^verbatim>\<open>struct.pack\<close> and \<^verbatim>\<open>struct.unpack\<close>\<close>

text \<open>
  The format strings \<^verbatim>\<open>"I"\<close> and \<^verbatim>\<open>"iii"\<close> carry no byte-order prefix, so \<^verbatim>\<open>struct\<close>
  works in native mode: C \<^verbatim>\<open>unsigned int\<close> and \<^verbatim>\<open>int\<close> (four bytes each, no padding
  between three of them) in the byte order of the host. The host's byte order is a parameter
  of the model.
\<close>

datatype byteorder = Little | Big

definition native :: "byteorder \<Rightarrow> byte list \<Rightarrow> byte list" where
  "native bo bs = (case bo of Little \<Rightarrow> bs | Big \<Rightarrow> rev bs)"

text \<open>The four bytes of a number below \<open>2 ^ 32\<close>, least significant first, and back.\<close>

definition le4 :: "nat \<Rightarrow> byte list" where
  "le4 n = [of_nat n, of_nat (n div 256), of_nat (n div 65536), of_nat (n div 16777216)]"

definition from_le :: "byte list \<Rightarrow> nat" where
  "from_le bs = foldr (\<lambda>b n. unat b + 256 * n) bs 0"

text \<open>\<^verbatim>\<open>struct.pack("I", v)\<close>: \<^verbatim>\<open>struct.error\<close> unless \<open>0 \<le> v < 2 ^ 32\<close>.\<close>

definition pack_I :: "byteorder \<Rightarrow> int \<Rightarrow> error + byte list" where
  "pack_I bo v =
     (if 0 \<le> v \<and> v < 2 ^ 32 then Inr (native bo (le4 (nat v))) else Inl StructError)"

text \<open>One \<^verbatim>\<open>i\<close> field: two's complement, \<^verbatim>\<open>struct.error\<close> outside \<open>[-2 ^ 31, 2 ^ 31)\<close>.\<close>

definition in_i32 :: "int \<Rightarrow> bool" where
  "in_i32 v = (- (2 ^ 31) \<le> v \<and> v < 2 ^ 31)"

definition pack_i :: "byteorder \<Rightarrow> int \<Rightarrow> error + byte list" where
  "pack_i bo v =
     (if in_i32 v then Inr (native bo (le4 (nat (v mod 2 ^ 32)))) else Inl StructError)"

text \<open>\<^verbatim>\<open>struct.pack("iii", *row)\<close>.\<close>

definition pack_iii :: "byteorder \<Rightarrow> stitch \<Rightarrow> error + byte list" where
  "pack_iii bo row =
     (case row of (x, y, c) \<Rightarrow>
        (case pack_i bo x of Inl e \<Rightarrow> Inl e | Inr bx \<Rightarrow>
        (case pack_i bo y of Inl e \<Rightarrow> Inl e | Inr by \<Rightarrow>
        (case pack_i bo c of Inl e \<Rightarrow> Inl e | Inr bc \<Rightarrow> Inr (bx @ by @ bc)))))"

text \<open>
  \<^verbatim>\<open>struct.unpack("I", buf)[0]\<close>: \<^verbatim>\<open>struct.error\<close> unless the buffer holds exactly four
  bytes.
\<close>

definition unpack_I :: "byteorder \<Rightarrow> byte list \<Rightarrow> error + nat" where
  "unpack_I bo buf =
     (if length buf = 4 then Inr (from_le (native bo buf)) else Inl StructError)"

definition signed32 :: "nat \<Rightarrow> int" where
  "signed32 u = (if u < 2 ^ 31 then int u else int u - 2 ^ 32)"

definition unpack_i :: "byteorder \<Rightarrow> byte list \<Rightarrow> int" where
  "unpack_i bo buf = signed32 (from_le (native bo buf))"

text \<open>\<^verbatim>\<open>struct.unpack("iii", buf)\<close>: exactly twelve bytes, else \<^verbatim>\<open>struct.error\<close>.\<close>

definition unpack_iii :: "byteorder \<Rightarrow> byte list \<Rightarrow> error + stitch" where
  "unpack_iii bo buf =
     (if length buf = 12
      then Inr (unpack_i bo (take 4 buf), unpack_i bo (take 4 (drop 4 buf)),
                unpack_i bo (drop 8 buf))
      else Inl StructError)"

section \<open>\<^verbatim>\<open>str.encode("utf-8")\<close> and \<^verbatim>\<open>bytes.decode("utf-8")\<close>\<close>

definition consE :: "'a \<Rightarrow> error + 'a list \<Rightarrow> error + 'a list" where
  "consE x r = (case r of Inl e \<Rightarrow> Inl e | Inr xs \<Rightarrow> Inr (x # xs))"

definition appE :: "'a list \<Rightarrow> error + 'a list \<Rightarrow> error + 'a list" where
  "appE xs r = (case r of Inl e \<Rightarrow> Inl e | Inr ys \<Rightarrow> Inr (xs @ ys))"

text \<open>
  Encoding raises \<^verbatim>\<open>UnicodeEncodeError\<close> at a surrogate code point (the default error
  handler is \<^verbatim>\<open>strict\<close>). The code points of a Python string are below \<open>0x110000\<close>.
\<close>

fun utf8_encode :: "pystr \<Rightarrow> error + byte list" where
  "utf8_encode [] = Inr []"
| "utf8_encode (c # cs) =
     (if c < 128 then appE [of_nat c] (utf8_encode cs)
      else if c < 2048 then
        appE [of_nat (192 + c div 64), of_nat (128 + c mod 64)] (utf8_encode cs)
      else if c < 65536 then
        (if 55296 \<le> c \<and> c \<le> 57343 then Inl UnicodeEncodeError
         else appE [of_nat (224 + c div 4096), of_nat (128 + c div 64 mod 64),
                    of_nat (128 + c mod 64)] (utf8_encode cs))
      else
        appE [of_nat (240 + c div 262144), of_nat (128 + c div 4096 mod 64),
              of_nat (128 + c div 64 mod 64), of_nat (128 + c mod 64)] (utf8_encode cs))"

text \<open>
  Decoding is strict: a stray or missing continuation byte, an overlong form, an encoded
  surrogate and a value above \<open>0x10FFFF\<close> raise \<^verbatim>\<open>UnicodeDecodeError\<close>.
\<close>

definition cont :: "byte \<Rightarrow> bool" where
  "cont b = (128 \<le> unat b \<and> unat b \<le> 191)"

fun utf8_decode :: "byte list \<Rightarrow> error + pystr" where
  "utf8_decode [] = Inr []"
| "utf8_decode (b # bs) =
     (let n = unat b in
      if n < 128 then consE n (utf8_decode bs)
      else if 194 \<le> n \<and> n \<le> 223 then
        (case bs of
           b1 # r \<Rightarrow>
             if cont b1 then consE ((n - 192) * 64 + (unat b1 - 128)) (utf8_decode r)
             else Inl UnicodeDecodeError
         | _ \<Rightarrow> Inl UnicodeDecodeError)
      else if 224 \<le> n \<and> n \<le> 239 then
        (case bs of
           b1 # b2 # r \<Rightarrow>
             if cont b1 \<and> cont b2 \<and> (n \<noteq> 224 \<or> 160 \<le> unat b1) \<and> (n \<noteq> 237 \<or> unat b1 \<le> 159)
             then consE ((n - 224) * 4096 + (unat b1 - 128) * 64 + (unat b2 - 128))
                    (utf8_decode r)
             else Inl UnicodeDecodeError
         | _ \<Rightarrow> Inl UnicodeDecodeError)
      else if 240 \<le> n \<and> n \<le> 244 then
        (case bs of
           b1 # b2 # b3 # r \<Rightarrow>
             if cont b1 \<and> cont b2 \<and> cont b3 \<and> (n \<noteq> 240 \<or> 144 \<le> unat b1)
                \<and> (n \<noteq> 244 \<or> unat b1 \<le> 143)
             then consE ((n - 240) * 262144 + (unat b1 - 128) * 4096 + (unat b2 - 128) * 64
                         + (unat b3 - 128)) (utf8_decode r)
             else Inl UnicodeDecodeError
         | _ \<Rightarrow> Inl UnicodeDecodeError)
      else Inl UnicodeDecodeError)"

section \<open>\<^verbatim>\<open>json.dumps\<close>\<close>

text \<open>
  With its default arguments: \<^verbatim>\<open>ensure_ascii=True\<close>, separators \<^verbatim>\<open>", "\<close> and
  \<^verbatim>\<open>": "\<close>, keys in insertion order.
\<close>

text \<open>\<^verbatim>\<open>int.__repr__\<close>: decimal digits, a minus sign for a negative number.\<close>

fun digits :: "nat \<Rightarrow> pystr" where
  "digits n = (if n < 10 then [48 + n] else digits (n div 10) @ [48 + n mod 10])"

declare digits.simps [simp del]

definition int_repr :: "int \<Rightarrow> pystr" where
  "int_repr i = (if i < 0 then 45 # digits (nat (- i)) else digits (nat i))"

text \<open>
  \<^verbatim>\<open>encode_basestring_ascii\<close>: the characters from space to tilde other than the quote and
  the backslash stand for themselves; the others are escaped, a code point from \<open>0x10000\<close>
  on as a UTF-16 surrogate pair. Hexadecimal digits are lower case.
\<close>

definition hexdigit :: "nat \<Rightarrow> nat" where
  "hexdigit d = (if d < 10 then 48 + d else 87 + d)"

definition u_escape :: "nat \<Rightarrow> pystr" where
  "u_escape c =
     [92, 117, hexdigit (c div 4096 mod 16), hexdigit (c div 256 mod 16),
      hexdigit (c div 16 mod 16), hexdigit (c mod 16)]"

definition S_CHAR :: "nat \<Rightarrow> bool" where
  "S_CHAR c = (32 \<le> c \<and> c \<le> 126 \<and> c \<noteq> 92 \<and> c \<noteq> 34)"

definition ascii_escape_unichar :: "nat \<Rightarrow> pystr" where
  "ascii_escape_unichar c =
     (if c = 92 then [92, 92]
      else if c = 34 then [92, 34]
      else if c = 8 then [92, 98]
      else if c = 12 then [92, 102]
      else if c = 10 then [92, 110]
      else if c = 13 then [92, 114]
      else if c = 9 then [92, 116]
      else if 65536 \<le> c then u_escape (55232 + c div 1024) @ u_escape (56320 + c mod 1024)
      else u_escape c)"

definition escape_char :: "nat \<Rightarrow> pystr" where
  "escape_char c = (if S_CHAR c then [c] else ascii_escape_unichar c)"

definition encode_basestring_ascii :: "pystr \<Rightarrow> pystr" where
  "encode_basestring_ascii s = [34] @ concat (map escape_char s) @ [34]"

text \<open>\<^verbatim>\<open>sep.join(parts)\<close>.\<close>

fun join :: "pystr \<Rightarrow> pystr list \<Rightarrow> pystr" where
  "join sep [] = []"
| "join sep [x] = x"
| "join sep (x # y # ys) = x @ sep @ join sep (y # ys)"

definition dumps_item :: "pystr \<times> pystr \<Rightarrow> pystr" where
  "dumps_item kv = encode_basestring_ascii (fst kv) @ lit '': '' @ snd kv"

primrec dumps :: "pyval \<Rightarrow> pystr" where
  "dumps PNone = lit ''null''"
| "dumps (PBool b) = (if b then lit ''true'' else lit ''false'')"
| "dumps (PInt i) = int_repr i"
| "dumps (PFloat l) = l"
| "dumps (PStr s) = encode_basestring_ascii s"
| "dumps (PList xs) = lit ''['' @ join (lit '', '') (map dumps xs) @ lit '']''"
| "dumps (PDict kvs) =
     lit ''{'' @ join (lit '', '') (map dumps_item (map (map_prod id dumps) kvs)) @ lit ''}''"

section \<open>\<^verbatim>\<open>json.loads\<close>\<close>

text \<open>
  The decoder of CPython with its default arguments (the C scanner, \<^verbatim>\<open>strict=True\<close>).
  Every failure to parse is a \<^verbatim>\<open>JSONDecodeError\<close>. Two limits of the interpreter are
  not modelled: the recursion limit on deeply nested input and the limit on the number of
  digits of an integer literal.
\<close>

definition is_ws :: "nat \<Rightarrow> bool" where
  "is_ws c = (c = 32 \<or> c = 9 \<or> c = 10 \<or> c = 13)"

fun skip_ws :: "pystr \<Rightarrow> pystr" where
  "skip_ws [] = []"
| "skip_ws (c # cs) = (if is_ws c then skip_ws cs else c # cs)"

definition hexval :: "nat \<Rightarrow> nat option" where
  "hexval c =
     (if 48 \<le> c \<and> c \<le> 57 then Some (c - 48)
      else if 97 \<le> c \<and> c \<le> 102 then Some (c - 87)
      else if 65 \<le> c \<and> c \<le> 70 then Some (c - 55)
      else None)"

text \<open>The four hexadecimal digits of a \<^verbatim>\<open>\uXXXX\<close> escape.\<close>

fun hex4 :: "pystr \<Rightarrow> nat option" where
  "hex4 (a # b # c # d # r) =
     (case hexval a of None \<Rightarrow> None | Some a' \<Rightarrow>
     (case hexval b of None \<Rightarrow> None | Some b' \<Rightarrow>
     (case hexval c of None \<Rightarrow> None | Some c' \<Rightarrow>
     (case hexval d of None \<Rightarrow> None | Some d' \<Rightarrow>
        Some (((a' * 16 + b') * 16 + c') * 16 + d')))))"
| "hex4 r = None"

definition is_high :: "nat \<Rightarrow> bool" where
  "is_high u = (55296 \<le> u \<and> u \<le> 56319)"

definition is_low :: "nat \<Rightarrow> bool" where
  "is_low u = (56320 \<le> u \<and> u \<le> 57343)"

definition join_surrogates :: "nat \<Rightarrow> nat \<Rightarrow> nat" where
  "join_surrogates hi lo = 65536 + (hi mod 1024) * 1024 + lo mod 1024"

text \<open>The character after a backslash, other than \<^verbatim>\<open>u\<close>.\<close>

definition unescape :: "nat \<Rightarrow> nat option" where
  "unescape e =
     (if e = 34 then Some 34
      else if e = 92 then Some 92
      else if e = 47 then Some 47
      else if e = 98 then Some 8
      else if e = 102 then Some 12
      else if e = 110 then Some 10
      else if e = 114 then Some 13
      else if e = 116 then Some 9
      else None)"

definition consS :: "nat \<Rightarrow> error + (pystr \<times> pystr) \<Rightarrow> error + (pystr \<times> pystr)" where
  "consS c r = (case r of Inl e \<Rightarrow> Inl e | Inr (s, rest) \<Rightarrow> Inr (c # s, rest))"

text \<open>
  \<^verbatim>\<open>scanstring\<close>, from the character after the opening quote: the string and the input
  after its closing quote. A high surrogate escape directly followed by a low surrogate
  escape is one code point.
\<close>

fun scanstring :: "pystr \<Rightarrow> error + (pystr \<times> pystr)" where
  "scanstring [] = Inl JSONDecodeError"
| "scanstring (c # cs) =
     (if c = 34 then Inr ([], cs)
      else if c = 92 then
        (case cs of
           [] \<Rightarrow> Inl JSONDecodeError
         | e # cs' \<Rightarrow>
             if e = 117 then
               (case hex4 cs' of
                  None \<Rightarrow> Inl JSONDecodeError
                | Some u \<Rightarrow>
                    if is_high u \<and> take 2 (drop 4 cs') = [92, 117] then
                      (case hex4 (drop 6 cs') of
                         None \<Rightarrow> Inl JSONDecodeError
                       | Some u2 \<Rightarrow>
                           if is_low u2
                           then consS (join_surrogates u u2) (scanstring (drop 10 cs'))
                           else consS u (scanstring (drop 4 cs')))
                    else consS u (scanstring (drop 4 cs')))
             else
               (case unescape e of
                  None \<Rightarrow> Inl JSONDecodeError
                | Some ch \<Rightarrow> consS ch (scanstring cs')))
      else if c \<le> 31 then Inl JSONDecodeError
      else consS c (scanstring cs))"

definition is_digit :: "nat \<Rightarrow> bool" where
  "is_digit c = (48 \<le> c \<and> c \<le> 57)"

definition digits_value :: "pystr \<Rightarrow> nat" where
  "digits_value ds = foldl (\<lambda>a d. 10 * a + (d - 48)) 0 ds"

text \<open>The exponent part of a number, empty when there is none.\<close>

definition exponent :: "pystr \<Rightarrow> pystr" where
  "exponent s =
     (case s of
        [] \<Rightarrow> []
      | e # r \<Rightarrow>
          if e = 101 \<or> e = 69 then
            (let sg = (case r of [] \<Rightarrow> [] | g # r' \<Rightarrow> if g = 43 \<or> g = 45 then [g] else []);
                 ds = takeWhile is_digit (drop (length sg) r)
             in if ds = [] then [] else e # sg @ ds)
          else [])"

text \<open>The fraction part of a number: a dot and at least one digit, else empty.\<close>

definition fraction :: "pystr \<Rightarrow> pystr" where
  "fraction s =
     (case s of
        p # f # r \<Rightarrow> if p = 46 \<and> is_digit f then p # f # takeWhile is_digit r else []
      | _ \<Rightarrow> [])"

text \<open>
  \<^verbatim>\<open>_match_number\<close>: \<open>None\<close> when no number starts here. An integer part that starts
  with \<^verbatim>\<open>0\<close> is that digit alone. With a fraction or an exponent the number is a float.
\<close>

definition match_number :: "pystr \<Rightarrow> (pyval \<times> pystr) option" where
  "match_number s =
     (let neg = (take 1 s = [45]);
          s1 = (if neg then drop 1 s else s)
      in case s1 of
           [] \<Rightarrow> None
         | d # r \<Rightarrow>
             if is_digit d then
               (let ds = (if d = 48 then [d] else d # takeWhile is_digit r);
                    s2 = drop (length ds) s1;
                    fr = fraction s2;
                    s3 = drop (length fr) s2;
                    ex = exponent s3;
                    s4 = drop (length ex) s3
                in if fr = [] \<and> ex = []
                   then Some (PInt (if neg then - int (digits_value ds)
                                    else int (digits_value ds)), s4)
                   else Some (PFloat ((if neg then [45] else []) @ ds @ fr @ ex), s4))
             else None)"

text \<open>\<^verbatim>\<open>d[k] = v\<close>, and the dictionary built from the pairs of an object in their order.\<close>

fun dict_set :: "pystr \<Rightarrow> pyval \<Rightarrow> (pystr \<times> pyval) list \<Rightarrow> (pystr \<times> pyval) list" where
  "dict_set k v [] = [(k, v)]"
| "dict_set k v (p # d) = (if fst p = k then (k, v) # d else p # dict_set k v d)"

definition py_dict :: "(pystr \<times> pyval) list \<Rightarrow> (pystr \<times> pyval) list" where
  "py_dict pairs = foldl (\<lambda>d kv. dict_set (fst kv) (snd kv) d) [] pairs"

text \<open>
  \<open>scan_once\<close> reads one value; \<open>parse_array\<close> and \<open>parse_object\<close> are the loops over
  the members of a non-empty array or object, entered after the opening bracket and the
  white space behind it. The first argument is the step budget.
\<close>

fun scan_once :: "nat \<Rightarrow> pystr \<Rightarrow> error + (pyval \<times> pystr)"
and parse_array :: "nat \<Rightarrow> pystr \<Rightarrow> error + (pyval list \<times> pystr)"
and parse_object :: "nat \<Rightarrow> pystr \<Rightarrow> error + ((pystr \<times> pyval) list \<times> pystr)"
where
  "scan_once 0 s = Inl FuelExhausted"
| "scan_once (Suc n) s =
     (case s of
        [] \<Rightarrow> Inl JSONDecodeError
      | c # cs \<Rightarrow>
          if c = 34 then
            (case scanstring cs of Inl e \<Rightarrow> Inl e | Inr (str, r) \<Rightarrow> Inr (PStr str, r))
          else if c = 123 then
            (case skip_ws cs of
               [] \<Rightarrow> Inl JSONDecodeError
             | d # r \<Rightarrow>
                 if d = 125 then Inr (PDict [], r)
                 else (case parse_object n (d # r) of
                         Inl e \<Rightarrow> Inl e
                       | Inr (pairs, r') \<Rightarrow> Inr (PDict (py_dict pairs), r')))
          else if c = 91 then
            (case skip_ws cs of
               [] \<Rightarrow> Inl JSONDecodeError
             | d # r \<Rightarrow>
                 if d = 93 then Inr (PList [], r)
                 else (case parse_array n (d # r) of
                         Inl e \<Rightarrow> Inl e
                       | Inr (vs, r') \<Rightarrow> Inr (PList vs, r')))
          else if take 4 s = lit ''null'' then Inr (PNone, drop 4 s)
          else if take 4 s = lit ''true'' then Inr (PBool True, drop 4 s)
          else if take 5 s = lit ''false'' then Inr (PBool False, drop 5 s)
          else if take 3 s = lit ''NaN'' then Inr (PFloat (lit ''NaN''), drop 3 s)
          else if take 8 s = lit ''Infinity'' then Inr (PFloat (lit ''Infinity''), drop 8 s)
          else if take 9 s = lit ''-Infinity''
            then Inr (PFloat (lit ''-Infinity''), drop 9 s)
          else (case match_number s of None \<Rightarrow> Inl JSONDecodeError | Some vr \<Rightarrow> Inr vr))"
| "parse_array 0 s = Inl FuelExhausted"
| "parse_array (Suc n) s =
     (case scan_once n s of
        Inl e \<Rightarrow> Inl e
      | Inr (v, r) \<Rightarrow>
          (case skip_ws r of
             [] \<Rightarrow> Inl JSONDecodeError
           | d # r' \<Rightarrow>
               if d = 93 then Inr ([v], r')
               else if d = 44 then
                 (case parse_array n (skip_ws r') of
                    Inl e \<Rightarrow> Inl e
                  | Inr (vs, r'') \<Rightarrow> Inr (v # vs, r''))
               else Inl JSONDecodeError))"
| "parse_object 0 s = Inl FuelExhausted"
| "parse_object (Suc n) s =
     (case s of
        [] \<Rightarrow> Inl JSONDecodeError
      | q # cs \<Rightarrow>
          if q \<noteq> 34 then Inl JSONDecodeError
          else
            (case scanstring cs of
               Inl e \<Rightarrow> Inl e
             | Inr (key, r) \<Rightarrow>
                 (case skip_ws r of
                    [] \<Rightarrow> Inl JSONDecodeError
                  | col # r1 \<Rightarrow>
                      if col \<noteq> 58 then Inl JSONDecodeError
                      else
                        (case scan_once n (skip_ws r1) of
                           Inl e \<Rightarrow> Inl e
                         | Inr (v, r2) \<Rightarrow>
                             (case skip_ws r2 of
                                [] \<Rightarrow> Inl JSONDecodeError
                              | d # r3 \<Rightarrow>
                                  if d = 125 then Inr ([(key, v)], r3)
                                  else if d = 44 then
                                    (case parse_object n (skip_ws r3) of
                                       Inl e \<Rightarrow> Inl e
                                     | Inr (pairs, r4) \<Rightarrow> Inr ((key, v) # pairs, r4))
                                  else Inl JSONDecodeError)))))"

text \<open>
  \<^verbatim>\<open>json.loads(s)\<close> for a string: a leading byte order mark is refused, white space
  around the value is skipped, anything else after the value is an error.
\<close>

definition json_loads :: "pystr \<Rightarrow> error + pyval" where
  "json_loads s =
     (if take 1 s = [65279] then Inl JSONDecodeError
      else (case scan_once (2 * length s + 1) (skip_ws s) of
              Inl e \<Rightarrow> Inl e
            | Inr (obj, r) \<Rightarrow> if skip_ws r = [] then Inr obj else Inl JSONDecodeError))"

section \<open>The thread-record codec\<close>

text \<open>\<^verbatim>\<open>thread_to_dict\<close> of \<^verbatim>\<open>read.py\<close>: a dictionary literal of seven entries.\<close>

definition thread_to_dict :: "thread \<Rightarrow> pyval" where
  "thread_to_dict thread =
     PDict [(lit ''hex_color'', color thread),
            (lit ''description'', description thread),
            (lit ''catalog_number'', catalog_number thread),
            (lit ''details'', details thread),
            (lit ''brand'', brand thread),
            (lit ''chart'', chart thread),
            (lit ''weight'', weight thread)]"

text \<open>\<^verbatim>\<open>d.get(k, None)\<close>.\<close>

definition dict_get :: "(pystr \<times> pyval) list \<Rightarrow> pystr \<Rightarrow> pyval" where
  "dict_get d k = (case map_of d k of None \<Rightarrow> PNone | Some v \<Rightarrow> v)"

text \<open>
  \<^verbatim>\<open>dict_to_thread\<close> of \<^verbatim>\<open>write.py\<close>. Among the values that \<^verbatim>\<open>json.loads\<close> returns only
  a dictionary has a \<^verbatim>\<open>get\<close> method; on any other the first \<^verbatim>\<open>thread_dict.get\<close> raises
  \<^verbatim>\<open>AttributeError\<close>.
\<close>

definition dict_to_thread :: "pyval \<Rightarrow> error + thread" where
  "dict_to_thread thread_dict =
     (case thread_dict of
        PDict d \<Rightarrow>
          Inr \<lparr>color = dict_get d (lit ''hex_color''),
               description = dict_get d (lit ''description''),
               catalog_number = dict_get d (lit ''catalog_number''),
               details = dict_get d (lit ''details''),
               brand = dict_get d (lit ''brand''),
               chart = dict_get d (lit ''chart''),
               weight = dict_get d (lit ''weight'')\<rparr>
      | _ \<Rightarrow> Inl AttributeError)"

section \<open>The exporter: \<^verbatim>\<open>main\<close> of \<^verbatim>\<open>read.py\<close>\<close>

text \<open>The loop over the stitches: the bytes it writes, or the first \<^verbatim>\<open>struct.error\<close>.\<close>

fun write_rows :: "byteorder \<Rightarrow> stitch list \<Rightarrow> error + byte list" where
  "write_rows bo [] = Inr []"
| "write_rows bo (row # rows) =
     (case pack_iii bo row of
        Inl e \<Rightarrow> Inl e
      | Inr b \<Rightarrow> appE b (write_rows bo rows))"

text \<open>
  \<open>read_main bo stitches threads\<close> is \<^verbatim>\<open>main\<close> from the point where pyembroidery has
  returned the pattern, with \<open>stitches\<close> and \<open>threads\<close> the pattern's \<^verbatim>\<open>stitches\<close> and
  \<^verbatim>\<open>threadlist\<close>. The result is the content of the output file when \<^verbatim>\<open>main\<close> returns,
  or the exception it raises (the file then holds what was written before).
\<close>

definition read_main :: "byteorder \<Rightarrow> stitch list \<Rightarrow> thread list \<Rightarrow> error + byte list" where
  "read_main bo stitches threads =
     (let thread_dicts = map thread_to_dict threads;
          threads_text = dumps (PList thread_dicts)
      in case utf8_encode threads_text of
           Inl e \<Rightarrow> Inl e
         | Inr threads_bytes \<Rightarrow>
            (let threads_size = length threads_bytes
             in case pack_I bo (int (length stitches)) of
                  Inl e \<Rightarrow> Inl e
                | Inr count_bytes \<Rightarrow>
                   (case write_rows bo stitches of
                      Inl e \<Rightarrow> Inl e
                    | Inr rows \<Rightarrow>
                       (case pack_I bo (int threads_size) of
                          Inl e \<Rightarrow> Inl e
                        | Inr size_bytes \<Rightarrow>
                            Inr (count_bytes @ rows @ size_bytes @ threads_bytes)))))"

section \<open>The importer: \<^verbatim>\<open>main\<close> of \<^verbatim>\<open>write.py\<close>\<close>

text \<open>
  The loop \<^verbatim>\<open>for _ in range(num_rows)\<close>: each turn reads up to twelve bytes and unpacks
  them. The second component of the result is the rest of the file.
\<close>

fun read_rows :: "byteorder \<Rightarrow> nat \<Rightarrow> byte list \<Rightarrow> error + (stitch list \<times> byte list)" where
  "read_rows bo 0 f = Inr ([], f)"
| "read_rows bo (Suc k) f =
     (case unpack_iii bo (take 12 f) of
        Inl e \<Rightarrow> Inl e
      | Inr row \<Rightarrow>
         (case read_rows bo k (drop 12 f) of
            Inl e \<Rightarrow> Inl e
          | Inr (rows, f') \<Rightarrow> Inr (row # rows, f')))"

text \<open>
  What \<^verbatim>\<open>map\<close> iterates over: the elements of a list, the keys of a dictionary, the
  characters of a string; \<^verbatim>\<open>TypeError\<close> for a value that is not iterable.
\<close>

definition py_iter :: "pyval \<Rightarrow> error + pyval list" where
  "py_iter v =
     (case v of
        PList xs \<Rightarrow> Inr xs
      | PDict d \<Rightarrow> Inr (map (\<lambda>kv. PStr (fst kv)) d)
      | PStr s \<Rightarrow> Inr (map (\<lambda>c. PStr [c]) s)
      | _ \<Rightarrow> Inl TypeError)"

text \<open>\<^verbatim>\<open>list(map(dict_to_thread, thread_dicts))\<close>: the first exception ends it.\<close>

fun map_threads :: "pyval list \<Rightarrow> error + thread list" where
  "map_threads [] = Inr []"
| "map_threads (x # xs) =
     (case dict_to_thread x of
        Inl e \<Rightarrow> Inl e
      | Inr t \<Rightarrow> consE t (map_threads xs))"

definition threads_of :: "pyval \<Rightarrow> error + thread list" where
  "threads_of thread_dicts =
     (case py_iter thread_dicts of Inl e \<Rightarrow> Inl e | Inr xs \<Rightarrow> map_threads xs)"

text \<open>
  \<open>write_main bo f\<close> is \<^verbatim>\<open>main\<close> on an input file of content \<open>f\<close>, up to the point
  where the pattern is handed to pyembroidery: the pattern's \<^verbatim>\<open>stitches\<close> and
  \<^verbatim>\<open>threadlist\<close>, or the exception raised. \<^verbatim>\<open>f.read(n)\<close> returns the next \<open>n\<close> bytes,
  or fewer at the end of the file.
\<close>

definition write_main :: "byteorder \<Rightarrow> byte list \<Rightarrow> error + (stitch list \<times> thread list)" where
  "write_main bo f =
     (case unpack_I bo (take 4 f) of
        Inl e \<Rightarrow> Inl e
      | Inr num_rows \<Rightarrow>
         (case read_rows bo num_rows (drop 4 f) of
            Inl e \<Rightarrow> Inl e
          | Inr (stitches, f1) \<Rightarrow>
             (case unpack_I bo (take 4 f1) of
                Inl e \<Rightarrow> Inl e
              | Inr threads_size \<Rightarrow>
                 (let threads_bytes = take threads_size (drop 4 f1)
                  in case utf8_decode threads_bytes of
                       Inl e \<Rightarrow> Inl e
                     | Inr str \<Rightarrow>
                        (case json_loads str of
                           Inl e \<Rightarrow> Inl e
                         | Inr thread_dicts \<Rightarrow>
                            (case threads_of thread_dicts of
                               Inl e \<Rightarrow> Inl e
                             | Inr threads \<Rightarrow> Inr (stitches, threads)))))))"

text \<open>The specification's names for the two directions.\<close>

abbreviation Encode :: "byteorder \<Rightarrow> stitch list \<Rightarrow> thread list \<Rightarrow> error + byte list" where
  "Encode \<equiv> read_main"

abbreviation Decode :: "byteorder \<Rightarrow> byte list \<Rightarrow> error + (stitch list \<times> thread list)" where
  "Decode \<equiv> write_main"

section \<open>Notions of the specification\<close>

text \<open>The seven keys of a thread object.\<close>

definition thread_keys :: "pystr list" where
  "thread_keys =
     [lit ''hex_color'', lit ''description'', lit ''catalog_number'', lit ''details'',
      lit ''brand'', lit ''chart'', lit ''weight'']"

text \<open>A thread record whose seven attributes are all absent.\<close>

definition blank_thread :: thread where
  "blank_thread =
     \<lparr>color = PNone, description = PNone, catalog_number = PNone, details = PNone,
      brand = PNone, chart = PNone, weight = PNone\<rparr>"

text \<open>
  The container layout of the specification's section 6, by offsets: the count declared in
  the first four bytes, the size declared behind the stitches, and the length of a
  container that holds exactly what it declares. The byte order is that of the host.
\<close>

definition declared_count :: "byteorder \<Rightarrow> byte list \<Rightarrow> nat" where
  "declared_count bo f = from_le (native bo (take 4 f))"

definition declared_size :: "byteorder \<Rightarrow> byte list \<Rightarrow> nat" where
  "declared_size bo f = from_le (native bo (take 4 (drop (4 + 12 * declared_count bo f) f)))"

definition container_size :: "byteorder \<Rightarrow> byte list \<Rightarrow> nat" where
  "container_size bo f = 8 + 12 * declared_count bo f + declared_size bo f"

text \<open>The UTF-8 bytes of the JSON serialisation of a thread list.\<close>

definition json_bytes :: "thread list \<Rightarrow> error + byte list" where
  "json_bytes threads = utf8_encode (dumps (PList (map thread_to_dict threads)))"

text \<open>
  Four bytes that are the little-endian form of an unsigned number, and of a signed number
  in two's complement.
\<close>

definition le_value :: "byte list \<Rightarrow> nat" where
  "le_value bs =
     unat (bs ! 0) + 256 * unat (bs ! 1) + 65536 * unat (bs ! 2) + 16777216 * unat (bs ! 3)"

definition u32_le :: "nat \<Rightarrow> byte list \<Rightarrow> bool" where
  "u32_le n bs = (length bs = 4 \<and> le_value bs = n)"

definition i32_le :: "int \<Rightarrow> byte list \<Rightarrow> bool" where
  "i32_le v bs =
     (length bs = 4 \<and>
      (if le_value bs < 2 ^ 31 then int (le_value bs) else int (le_value bs) - 2 ^ 32) = v)"

text \<open>The same in the byte order of the host.\<close>

definition u32_host :: "byteorder \<Rightarrow> nat \<Rightarrow> byte list \<Rightarrow> bool" where
  "u32_host bo n bs = u32_le n (native bo bs)"

definition i32_host :: "byteorder \<Rightarrow> int \<Rightarrow> byte list \<Rightarrow> bool" where
  "i32_host bo v bs = i32_le v (native bo bs)"

text \<open>The four bytes at an offset, and the stitch held in the twelve bytes at an offset.\<close>

definition field :: "nat \<Rightarrow> byte list \<Rightarrow> byte list" where
  "field off bs = take 4 (drop off bs)"

definition stitch_at :: "byteorder \<Rightarrow> byte list \<Rightarrow> nat \<Rightarrow> stitch \<Rightarrow> bool" where
  "stitch_at bo bs off row =
     (case row of (x, y, c) \<Rightarrow>
        i32_host bo x (field off bs) \<and> i32_host bo y (field (off + 4) bs)
        \<and> i32_host bo c (field (off + 8) bs))"

text \<open>All stitches of a list at their offsets, the first at \<open>off\<close>.\<close>

fun stitches_at :: "byteorder \<Rightarrow> byte list \<Rightarrow> nat \<Rightarrow> stitch list \<Rightarrow> bool" where
  "stitches_at bo bs off [] = True"
| "stitches_at bo bs off (row # rows) =
     (stitch_at bo bs off row \<and> stitches_at bo bs (off + 12) rows)"

text \<open>A stitch whose three components fit a signed 32-bit integer.\<close>

definition stitch_in_range :: "stitch \<Rightarrow> bool" where
  "stitch_in_range row = (case row of (x, y, c) \<Rightarrow> in_i32 x \<and> in_i32 y \<and> in_i32 c)"

text \<open>
  The values that the round trip through JSON is stated for: null, booleans, integers,
  text made of Unicode scalar values (a Python string may also hold surrogate code points,
  and \<^verbatim>\<open>json.loads\<close> joins an escaped high surrogate and an escaped low surrogate that
  follow each other into one code point), and lists and dictionaries of such values.
  Floating-point numbers are left out.
\<close>

definition scalar_value :: "nat \<Rightarrow> bool" where
  "scalar_value c = (c < 55296 \<or> (57344 \<le> c \<and> c < 1114112))"

definition unicode_text :: "pystr \<Rightarrow> bool" where
  "unicode_text s = list_all scalar_value s"

primrec json_exact :: "pyval \<Rightarrow> bool" where
  "json_exact PNone = True"
| "json_exact (PBool b) = True"
| "json_exact (PInt i) = True"
| "json_exact (PFloat l) = False"
| "json_exact (PStr s) = unicode_text s"
| "json_exact (PList xs) = list_all (\<lambda>b. b) (map json_exact xs)"
| "json_exact (PDict kvs) =
     (distinct (map fst kvs) \<and> list_all (\<lambda>kv. unicode_text (fst kv)) kvs
      \<and> list_all (\<lambda>kb. snd kb) (map (map_prod id json_exact) kvs))"

definition thread_exact :: "thread \<Rightarrow> bool" where
  "thread_exact t =
     (json_exact (color t) \<and> json_exact (description t) \<and> json_exact (catalog_number t)
      \<and> json_exact (details t) \<and> json_exact (brand t) \<and> json_exact (chart t)
      \<and> json_exact (weight t))"

text \<open>
  The end-to-end example of the specification's section 8: two stitches and one thread
  that has a colour and a brand, the JSON text of the thread list, and the container on a
  little-endian host.
\<close>

definition example_stitches :: "stitch list" where
  "example_stitches = [(0, 0, 1), (10, 20, 0)]"

definition example_threads :: "thread list" where
  "example_threads =
     [\<lparr>color = PStr (lit ''ff0000''), description = PNone, catalog_number = PNone,
       details = PNone, brand = PStr (lit ''Acme''), chart = PNone, weight = PNone\<rparr>]"

definition example_json :: "byte list" where
  "example_json =
     map of_nat (lit ''[{\"hex_color\": \"ff0000\", \"description\": null, \"catalog_number\": null, \"details\": null, \"brand\": \"Acme\", \"chart\": null, \"weight\": null}]'')"

definition example_container :: "byte list" where
  "example_container =
     [2, 0, 0, 0,
      0, 0, 0, 0, 0, 0, 0, 0, 1, 0, 0, 0,
      10, 0, 0, 0, 20, 0, 0, 0, 0, 0, 0, 0,
      135, 0, 0, 0] @ example_json"





text \<open>
  A thread whose description has \<open>2 ^ 32\<close> characters, so that the JSON text of a thread
  list that holds it does not fit the size field.
\<close>

definition long_thread :: thread where
  "long_thread =
     \<lparr>color = PNone, description = PStr (replicate (2 ^ 32) 97), catalog_number = PNone,
      details = PNone, brand = PNone, chart = PNone, weight = PNone\<rparr>"

section \<open>Notions used in the proofs\<close>

text \<open>Text within ASCII, which UTF-8 encodes byte for byte.\<close>

definition ascii :: "pystr \<Rightarrow> bool" where
  "ascii s = list_all (\<lambda>c. c < 128) s"

text \<open>
  What follows a value inside the JSON text that \<^verbatim>\<open>json.dumps\<close> writes: the end of the
  text, a comma or a closing bracket.
\<close>

definition delim :: "pystr \<Rightarrow> bool" where
  "delim r = (case r of [] \<Rightarrow> True | c # cs \<Rightarrow> c = 44 \<or> c = 93 \<or> c = 125)"

text \<open>Text that begins with a character that is neither white space nor a closing bracket.\<close>

definition starts :: "pystr \<Rightarrow> bool" where
  "starts s = (case s of [] \<Rightarrow> False | c # cs \<Rightarrow> \<not> is_ws c \<and> c \<noteq> 93 \<and> c \<noteq> 125)"

text \<open>A member of an object as \<^verbatim>\<open>json.dumps\<close> writes it.\<close>

definition json_pair :: "pystr \<times> pyval \<Rightarrow> pystr" where
  "json_pair kv = encode_basestring_ascii (fst kv) @ [58, 32] @ dumps (snd kv)"

section \<open>Packing and unpacking are inverse\<close>

lemma length_native [simp]: "length (native bo bs) = length bs"
  by (cases bo) (simp_all add: native_def)

lemma native_native [simp]: "native bo (native bo bs) = bs"
  by (cases bo) (simp_all add: native_def)

lemma length_le4 [simp]: "length (le4 n) = 4"
  by (simp add: le4_def)

lemma from_le_le4:
  assumes "n < 2 ^ 32"
  shows "from_le (le4 n) = n"
proof -
  have a: "n div 65536 = n div 256 div 256"
    and b: "n div 16777216 = n div 256 div 256 div 256"
    by (simp_all add: div_mult2_eq)
  have "n div 256 div 256 div 256 < 256"
    using assms by (simp add: div_mult2_eq[symmetric] less_mult_imp_div_less)
  then have c: "n div 256 div 256 div 256 mod 256 = n div 256 div 256 div 256"
    by simp
  have "from_le (le4 n) =
      n mod 256 + 256 * (n div 256 mod 256 + 256 * (n div 256 div 256 mod 256
        + 256 * (n div 256 div 256 div 256)))"
    by (simp add: from_le_def le4_def unat_of_nat a b c)
  also have "\<dots> = n"
    by (simp only: mod_mult_div_eq)
  finally show ?thesis .
qed

lemma mod_2_32: "in_i32 v \<Longrightarrow> v mod 2 ^ 32 = (if v < 0 then v + 2 ^ 32 else v)"
proof (cases "v < 0")
  case True
  assume "in_i32 v"
  then have "0 \<le> v + 2 ^ 32" "v + 2 ^ 32 < 2 ^ 32"
    using True by (simp_all add: in_i32_def)
  then have "(v + 2 ^ 32) mod 2 ^ 32 = v + 2 ^ 32"
    by (rule mod_pos_pos_trivial)
  then show ?thesis using True by simp
next
  case False
  assume "in_i32 v"
  then show ?thesis using False by (simp add: in_i32_def)
qed

lemma signed32_mod:
  assumes "in_i32 v"
  shows "signed32 (nat (v mod 2 ^ 32)) = v"
proof (cases "v < 0")
  case True
  have m: "v mod 2 ^ 32 = v + 2 ^ 32"
    using mod_2_32 [OF assms] True by simp
  have "\<not> nat (v + 2 ^ 32) < 2 ^ 31"
    using assms by (simp add: in_i32_def) arith
  moreover have "int (nat (v + 2 ^ 32)) = v + 2 ^ 32"
    using assms by (simp add: in_i32_def)
  ultimately show ?thesis
    unfolding signed32_def m by (simp del: int_nat_eq)
next
  case False
  have m: "v mod 2 ^ 32 = v"
    using mod_2_32 [OF assms] False by simp
  have "nat v < 2 ^ 31"
    using assms False by (simp add: in_i32_def)
  then show ?thesis
    unfolding signed32_def m using False by simp
qed

lemma unpack_I_pack_I:
  "pack_I bo v = Inr bs \<Longrightarrow> unpack_I bo bs = Inr (nat v) \<and> length bs = 4"
  by (auto simp: pack_I_def unpack_I_def from_le_le4 split: if_splits)

lemma unpack_i_pack_i:
  assumes "pack_i bo v = Inr bs"
  shows "unpack_i bo bs = v \<and> length bs = 4"
proof -
  have v: "in_i32 v" and bs: "bs = native bo (le4 (nat (v mod 2 ^ 32)))"
    using assms by (auto simp: pack_i_def split: if_splits)
  have "nat (v mod 2 ^ 32) < 2 ^ 32"
    by simp
  then have "from_le (le4 (nat (v mod 2 ^ 32))) = nat (v mod 2 ^ 32)"
    by (rule from_le_le4)
  then show ?thesis
    unfolding bs unpack_i_def using signed32_mod [OF v] by simp
qed

lemma unpack_iii_pack_iii:
  "pack_iii bo row = Inr bs \<Longrightarrow> unpack_iii bo bs = Inr row \<and> length bs = 12"
  by (auto simp: pack_iii_def unpack_iii_def dest!: unpack_i_pack_i
      split: prod.splits sum.splits)

section \<open>The thread-record codec: what is proved\<close>

lemma map_of_dict_set: "map_of (dict_set k v d) = (map_of d)(k \<mapsto> v)"
  by (induction d) (auto simp: fun_eq_iff)

lemma map_of_remove:
  "k' \<noteq> k \<Longrightarrow> map_of (filter (\<lambda>kv. fst kv \<noteq> k) d) k' = map_of d k'"
  by (induction d) auto

lemma dict_get_absent: "k \<notin> fst ` set d \<Longrightarrow> dict_get d k = PNone"
proof -
  assume "k \<notin> fst ` set d"
  then have "map_of d k = None"
    by (simp add: map_of_eq_None_iff)
  then show ?thesis
    by (simp add: dict_get_def)
qed

lemma dict_get_set_other: "k' \<noteq> k \<Longrightarrow> dict_get (dict_set k v d) k' = dict_get d k'"
  by (simp add: dict_get_def map_of_dict_set)

lemma dict_get_remove_other:
  "k' \<noteq> k \<Longrightarrow> dict_get (filter (\<lambda>kv. fst kv \<noteq> k) d) k' = dict_get d k'"
  by (simp add: dict_get_def map_of_remove)

lemma dict_get_set_None:
  "dict_get (dict_set k PNone d) k' = dict_get (filter (\<lambda>kv. fst kv \<noteq> k) d) k'"
proof (cases "k' = k")
  case True
  have "k \<notin> fst ` set (filter (\<lambda>kv. fst kv \<noteq> k) d)"
    by auto
  then show ?thesis
    using True by (simp add: dict_get_absent) (simp add: dict_get_def map_of_dict_set)
next
  case False
  then show ?thesis
    by (simp add: dict_get_set_other dict_get_remove_other)
qed

lemma dict_to_thread_agree:
  "(\<And>k'. k' \<in> set thread_keys \<Longrightarrow> dict_get d' k' = dict_get d k') \<Longrightarrow>
   dict_to_thread (PDict d') = dict_to_thread (PDict d)"
  by (simp add: dict_to_thread_def thread_keys_def)

lemma dict_to_thread_set_other:
  assumes "k \<notin> set thread_keys"
  shows "dict_to_thread (PDict (dict_set k v d)) = dict_to_thread (PDict d)"
proof (rule dict_to_thread_agree)
  fix k' assume "k' \<in> set thread_keys"
  then have "k' \<noteq> k"
    using assms by blast
  then show "dict_get (dict_set k v d) k' = dict_get d k'"
    by (rule dict_get_set_other)
qed

lemma dict_to_thread_remove_other:
  assumes "k \<notin> set thread_keys"
  shows "dict_to_thread (PDict (filter (\<lambda>kv. fst kv \<noteq> k) d)) = dict_to_thread (PDict d)"
proof (rule dict_to_thread_agree)
  fix k' assume "k' \<in> set thread_keys"
  then have "k' \<noteq> k"
    using assms by blast
  then show "dict_get (filter (\<lambda>kv. fst kv \<noteq> k) d) k' = dict_get d k'"
    by (rule dict_get_remove_other)
qed

text \<open>
  Claim C6 (missing-field tolerance). On every dictionary \<open>d\<close>, \<^verbatim>\<open>dict_to_thread\<close>
  returns a thread record; each of the seven keys that \<open>d\<close> does not hold leaves its
  attribute at \<^verbatim>\<open>None\<close>; and a key \<open>k\<close> that is not one of the seven has no effect:
  setting it to any value \<open>v\<close>, or removing it, gives the same record.
\<close>

theorem dict_to_thread_missing_fields:
  "\<exists>t. dict_to_thread (PDict d) = Inr t
     \<and> (lit ''hex_color'' \<notin> fst ` set d \<longrightarrow> color t = PNone)
     \<and> (lit ''description'' \<notin> fst ` set d \<longrightarrow> description t = PNone)
     \<and> (lit ''catalog_number'' \<notin> fst ` set d \<longrightarrow> catalog_number t = PNone)
     \<and> (lit ''details'' \<notin> fst ` set d \<longrightarrow> details t = PNone)
     \<and> (lit ''brand'' \<notin> fst ` set d \<longrightarrow> brand t = PNone)
     \<and> (lit ''chart'' \<notin> fst ` set d \<longrightarrow> chart t = PNone)
     \<and> (lit ''weight'' \<notin> fst ` set d \<longrightarrow> weight t = PNone)
     \<and> (k \<notin> set thread_keys \<longrightarrow>
          dict_to_thread (PDict (dict_set k v d)) = Inr t
          \<and> dict_to_thread (PDict (filter (\<lambda>kv. fst kv \<noteq> k) d)) = Inr t)"
proof -
  obtain t where t: "dict_to_thread (PDict d) = Inr t"
    by (simp add: dict_to_thread_def)
  then have f: "color t = dict_get d (lit ''hex_color'')"
    "description t = dict_get d (lit ''description'')"
    "catalog_number t = dict_get d (lit ''catalog_number'')"
    "details t = dict_get d (lit ''details'')"
    "brand t = dict_get d (lit ''brand'')"
    "chart t = dict_get d (lit ''chart'')"
    "weight t = dict_get d (lit ''weight'')"
    by (auto simp: dict_to_thread_def)
  show ?thesis
    apply (rule exI [of _ t])
    apply (intro conjI impI)
            apply (rule t)
           apply (simp_all only: f t simp_thms dict_get_absent dict_to_thread_set_other
        dict_to_thread_remove_other)
    done
qed

text \<open>
  The theorem at the thread object of the specification's end-to-end example, which holds
  two of the seven keys, and at the unknown key \<^verbatim>\<open>note\<close>.
\<close>

theorem dict_to_thread_missing_fields_witness:
  "dict_to_thread (PDict [(lit ''hex_color'', PStr (lit ''ff0000'')),
                          (lit ''brand'', PStr (lit ''Acme''))])
     = Inr \<lparr>color = PStr (lit ''ff0000''), description = PNone, catalog_number = PNone,
            details = PNone, brand = PStr (lit ''Acme''), chart = PNone, weight = PNone\<rparr>
   \<and> dict_to_thread (PDict (dict_set (lit ''note'') (PInt 1)
         [(lit ''hex_color'', PStr (lit ''ff0000'')), (lit ''brand'', PStr (lit ''Acme''))]))
     = Inr \<lparr>color = PStr (lit ''ff0000''), description = PNone, catalog_number = PNone,
            details = PNone, brand = PStr (lit ''Acme''), chart = PNone, weight = PNone\<rparr>"
proof -
  let ?d = "[(lit ''hex_color'', PStr (lit ''ff0000'')), (lit ''brand'', PStr (lit ''Acme''))]"
  have k: "lit ''note'' \<notin> set thread_keys"
    by (simp add: thread_keys_def)
  have a: "lit ''description'' \<notin> fst ` set ?d" "lit ''catalog_number'' \<notin> fst ` set ?d"
    "lit ''details'' \<notin> fst ` set ?d" "lit ''chart'' \<notin> fst ` set ?d"
    "lit ''weight'' \<notin> fst ` set ?d"
    by simp_all
  from dict_to_thread_missing_fields [of ?d "lit ''note''" "PInt 1"] k a
  obtain t where t: "dict_to_thread (PDict ?d) = Inr t"
    "description t = PNone" "catalog_number t = PNone" "details t = PNone"
    "chart t = PNone" "weight t = PNone"
    "dict_to_thread (PDict (dict_set (lit ''note'') (PInt 1) ?d)) = Inr t"
    by blast
  have "color t = PStr (lit ''ff0000'')" "brand t = PStr (lit ''Acme'')"
    using t(1) by (auto simp: dict_to_thread_def dict_get_def)
  then have "t = \<lparr>color = PStr (lit ''ff0000''), description = PNone, catalog_number = PNone,
            details = PNone, brand = PStr (lit ''Acme''), chart = PNone, weight = PNone\<rparr>"
    using t(2-6) by simp
  then show ?thesis
    using t(1,7) by simp
qed

text \<open>
  Claim C7 (a missing key and a null value are the same on decode). For every dictionary
  \<open>d\<close> and every key \<open>k\<close>, among them the seven known ones, \<^verbatim>\<open>dict_to_thread\<close> gives the
  same result on \<open>d\<close> with \<open>k\<close> set to \<^verbatim>\<open>None\<close> and on \<open>d\<close> with \<open>k\<close> removed.
\<close>

theorem dict_to_thread_null_is_missing:
  "dict_to_thread (PDict (dict_set k PNone d))
     = dict_to_thread (PDict (filter (\<lambda>kv. fst kv \<noteq> k) d))"
  by (simp add: dict_to_thread_def dict_get_set_None)

text \<open>
  Claim C8 (the exporter writes null, it omits no key). For every thread record,
  \<^verbatim>\<open>thread_to_dict\<close> returns a dictionary with exactly the seven keys, in the order of the
  source, each mapped to the value of its attribute, so that an absent attribute is the
  value \<^verbatim>\<open>None\<close>; and the JSON text of the dictionary of a thread with no attribute set
  has all seven keys with the value \<^verbatim>\<open>null\<close>.
\<close>

theorem thread_to_dict_seven_keys:
  "thread_to_dict t =
     PDict [(lit ''hex_color'', color t), (lit ''description'', description t),
            (lit ''catalog_number'', catalog_number t), (lit ''details'', details t),
            (lit ''brand'', brand t), (lit ''chart'', chart t), (lit ''weight'', weight t)]
   \<and> (\<exists>d. thread_to_dict t = PDict d \<and> map fst d = thread_keys \<and> distinct (map fst d)
          \<and> map snd d = [color t, description t, catalog_number t, details t, brand t,
                          chart t, weight t])
   \<and> dumps (thread_to_dict blank_thread) =
       lit ''{\"hex_color\": null, \"description\": null, \"catalog_number\": null, \"details\": null, \"brand\": null, \"chart\": null, \"weight\": null}''"
proof (intro conjI)
  show "thread_to_dict t =
     PDict [(lit ''hex_color'', color t), (lit ''description'', description t),
            (lit ''catalog_number'', catalog_number t), (lit ''details'', details t),
            (lit ''brand'', brand t), (lit ''chart'', chart t), (lit ''weight'', weight t)]"
    by (simp add: thread_to_dict_def)
  show "\<exists>d. thread_to_dict t = PDict d \<and> map fst d = thread_keys \<and> distinct (map fst d)
          \<and> map snd d = [color t, description t, catalog_number t, details t, brand t,
                          chart t, weight t]"
    by (simp add: thread_to_dict_def thread_keys_def)
  show "dumps (thread_to_dict blank_thread) =
       lit ''{\"hex_color\": null, \"description\": null, \"catalog_number\": null, \"details\": null, \"brand\": null, \"chart\": null, \"weight\": null}''"
    by code_simp
qed

section \<open>The loops over the stitches\<close>

lemma appE_Inr [simp]: "appE xs (Inr ys) = Inr (xs @ ys)"
  by (simp add: appE_def)

lemma appE_Inl [simp]: "appE xs (Inl e) = Inl e"
  by (simp add: appE_def)

lemma appE_eq_Inr: "appE xs r = Inr zs \<longleftrightarrow> (\<exists>ys. r = Inr ys \<and> zs = xs @ ys)"
  by (cases r) auto

lemma consE_Inr [simp]: "consE x (Inr ys) = Inr (x # ys)"
  by (simp add: consE_def)

lemma consE_Inl [simp]: "consE x (Inl e) = Inl e"
  by (simp add: consE_def)

lemma pack_i_cases:
  "pack_i bo v = (if in_i32 v then Inr (native bo (le4 (nat (v mod 2 ^ 32)))) else Inl StructError)"
  by (simp add: pack_i_def)

lemma pack_iii_Inl: "pack_iii bo row = Inl e \<Longrightarrow> e = StructError \<and> \<not> stitch_in_range row"
  by (auto simp: pack_iii_def pack_i_def stitch_in_range_def split: prod.splits sum.splits if_splits)

lemma pack_iii_Inr: "pack_iii bo row = Inr b \<Longrightarrow> stitch_in_range row"
  by (auto simp: pack_iii_def pack_i_def stitch_in_range_def split: prod.splits sum.splits if_splits)

lemma write_rows_Inl: "write_rows bo st = Inl e \<Longrightarrow> e = StructError \<and> \<not> list_all stitch_in_range st"
proof (induction st)
  case Nil
  then show ?case by simp
next
  case (Cons row st)
  then show ?case
    by (cases "pack_iii bo row"; cases "write_rows bo st") (auto dest: pack_iii_Inl)
qed

lemma write_rows_Inr: "write_rows bo st = Inr bs \<Longrightarrow> list_all stitch_in_range st \<and> length bs = 12 * length st"
proof (induction st arbitrary: bs)
  case Nil
  then show ?case by simp
next
  case (Cons row st)
  then show ?case
    by (cases "pack_iii bo row"; cases "write_rows bo st")
       (auto dest: pack_iii_Inr unpack_iii_pack_iii)
qed

lemma read_rows_write_rows:
  "write_rows bo st = Inr bs \<Longrightarrow> read_rows bo (length st) (bs @ rest) = Inr (st, rest)"
proof (induction st arbitrary: bs)
  case Nil
  then show ?case by simp
next
  case (Cons row st)
  from Cons.prems obtain b bs' where b: "pack_iii bo row = Inr b" and bs': "write_rows bo st = Inr bs'"
    and bs: "bs = b @ bs'"
    by (cases "pack_iii bo row"; cases "write_rows bo st") auto
  from unpack_iii_pack_iii [OF b] have u: "unpack_iii bo b = Inr row" and l: "length b = 12" by auto
  show ?case
    using Cons.IH [OF bs'] by (simp add: bs l u)
qed

lemma read_rows_Inl: "read_rows bo n f = Inl e \<Longrightarrow> e = StructError \<and> length f < 12 * n"
proof (induction n arbitrary: f)
  case 0
  then show ?case by simp
next
  case (Suc n)
  show ?case
  proof (cases "unpack_iii bo (take 12 f)")
    case (Inl e')
    then show ?thesis using Suc.prems by (auto simp: unpack_iii_def split: if_splits)
  next
    case (Inr row)
    then have "12 \<le> length f" by (auto simp: unpack_iii_def split: if_splits)
    moreover from Suc.prems Inr have "read_rows bo n (drop 12 f) = Inl e"
      by (auto split: sum.splits)
    from Suc.IH [OF this] have "e = StructError" "length (drop 12 f) < 12 * n" by auto
    ultimately show ?thesis by auto
  qed
qed

lemma read_rows_Inr:
  "read_rows bo n f = Inr (rows, f') \<Longrightarrow> f' = drop (12 * n) f \<and> 12 * n \<le> length f \<and> length rows = n"
proof (induction n arbitrary: f rows)
  case 0
  then show ?case by simp
next
  case (Suc n)
  from Suc.prems obtain row rows' where row: "unpack_iii bo (take 12 f) = Inr row"
    and rows': "read_rows bo n (drop 12 f) = Inr (rows', f')" and rows: "rows = row # rows'"
    by (auto split: sum.splits)
  from row have "12 \<le> length f" by (auto simp: unpack_iii_def split: if_splits)
  with Suc.IH [OF rows'] rows show ?case by (auto simp: add.commute)
qed

lemma read_rows_append:
  "12 * n \<le> length f \<Longrightarrow> read_rows bo n (f @ s) = (case read_rows bo n f of Inl e \<Rightarrow> Inl e | Inr (rows, f') \<Rightarrow> Inr (rows, f' @ s))"
proof (induction n arbitrary: f)
  case 0
  then show ?case by simp
next
  case (Suc n)
  then have "12 \<le> length f" "12 * n \<le> length (drop 12 f)" by auto
  then show ?case using Suc.IH [of "drop 12 f"]
    by (auto split: sum.splits)
qed

section \<open>UTF-8 on ASCII text: what is proved\<close>

lemma ascii_Nil [simp]: "ascii []"
  by (simp add: ascii_def)

lemma ascii_Cons [simp]: "ascii (c # s) \<longleftrightarrow> c < 128 \<and> ascii s"
  by (simp add: ascii_def)

lemma ascii_append [simp]: "ascii (s @ t) \<longleftrightarrow> ascii s \<and> ascii t"
  by (simp add: ascii_def)

lemma utf8_encode_ascii: "ascii s \<Longrightarrow> utf8_encode s = Inr (map of_nat s)"
  by (induction s) (simp_all add: appE_def)

lemma unat_byte: "c < 128 \<Longrightarrow> unat (of_nat c :: byte) = c"
  by (simp add: unat_of_nat)

lemma utf8_decode_ascii: "ascii s \<Longrightarrow> utf8_decode (map of_nat s) = Inr s"
  by (induction s) (simp_all add: consE_def unat_byte Let_def)

section \<open>JSON text read back\<close>

lemma hexval_hexdigit: "d < 16 \<Longrightarrow> hexval (hexdigit d) = Some d"
  by (simp add: hexval_def hexdigit_def)

lemma hex_compose:
  assumes "u < 65536"
  shows "((u div 4096 mod 16 * 16 + u div 256 mod 16) * 16 + u div 16 mod 16) * 16 + u mod 16 = (u :: nat)"
proof -
  have a: "u div 256 = u div 16 div 16" and b: "u div 4096 = u div 16 div 16 div 16"
    by (simp_all add: div_mult2_eq)
  have "u div 16 div 16 div 16 < 16"
    using assms by (simp add: div_mult2_eq[symmetric] less_mult_imp_div_less)
  then have c: "u div 16 div 16 div 16 mod 16 = u div 16 div 16 div 16" by simp
  have "((u div 4096 mod 16 * 16 + u div 256 mod 16) * 16 + u div 16 mod 16) * 16 + u mod 16
      = u mod 16 + 16 * (u div 16 mod 16 + 16 * (u div 16 div 16 mod 16 + 16 * (u div 16 div 16 div 16)))"
    by (simp add: a b c)
  also have "\<dots> = u" by (simp only: mod_mult_div_eq)
  finally show ?thesis .
qed

lemma hex4_digits:
  assumes "u < 65536"
  shows "hex4 (hexdigit (u div 4096 mod 16) # hexdigit (u div 256 mod 16)
               # hexdigit (u div 16 mod 16) # hexdigit (u mod 16) # r) = Some u"
proof -
  have h: "hexval (hexdigit (d mod 16)) = Some (d mod 16)" for d
    by (rule hexval_hexdigit) simp
  show ?thesis
    by (simp only: hex4.simps h option.case hex_compose [OF assms])
qed

lemma high_low:
  assumes "65536 \<le> c" "c < 1114112"
  shows "is_high (55232 + c div 1024)" "is_low (56320 + c mod 1024)"
    "55232 + c div 1024 < 65536" "56320 + c mod 1024 < 65536"
proof -
  have q: "64 \<le> c div 1024" "c div 1024 < 1088"
    using assms by (simp_all add: le_div_geq less_mult_imp_div_less)
  show "is_high (55232 + c div 1024)" using q by (simp add: is_high_def)
  show "is_low (56320 + c mod 1024)" by (simp add: is_low_def)
  show "55232 + c div 1024 < 65536" "56320 + c mod 1024 < 65536" using q by simp_all
qed

lemma join_high_low:
  assumes "65536 \<le> c" "c < 1114112"
  shows "join_surrogates (55232 + c div 1024) (56320 + c mod 1024) = c"
proof -
  define q where "q = c div 1024"
  define r where "r = c mod 1024"
  have c: "c = 1024 * q + r" by (simp add: q_def r_def)
  have q: "64 \<le> q" "q < 1088" and r: "r < 1024"
    using assms by (simp_all add: q_def r_def le_div_geq less_mult_imp_div_less)
  have "55232 + q = 1024 * 53 + (q + 960)" by simp
  have "(55232 + q) mod 1024 = q - 64"
  proof -
    have "55232 + q = (q - 64) + 54 * 1024" using q by simp
    then have "(55232 + q) mod 1024 = (q - 64) mod 1024" by (simp only: mod_mult_self1)
    then show ?thesis using q by simp
  qed
  moreover have "(56320 + r) mod 1024 = r"
  proof -
    have "56320 + r = r + 55 * 1024" by simp
    then have "(56320 + r) mod 1024 = r mod 1024" by (simp only: mod_mult_self1)
    then show ?thesis using r by simp
  qed
  ultimately have "join_surrogates (55232 + q) (56320 + r) = 65536 + (q - 64) * 1024 + r"
    by (simp only: join_surrogates_def)
  also have "\<dots> = c" using q unfolding c by simp
  finally show ?thesis unfolding q_def r_def .
qed

declare scanstring.simps(2) [simp del]

lemma scanstring_u_escape:
  assumes "u < 65536" "\<not> is_high u"
  shows "scanstring (u_escape u @ r) = consS u (scanstring r)"
proof -
  have "scanstring (u_escape u @ r) = scanstring (92 # 117 # (hexdigit (u div 4096 mod 16) # hexdigit (u div 256 mod 16)
               # hexdigit (u div 16 mod 16) # hexdigit (u mod 16) # r))"
    by (simp add: u_escape_def)
  also have "\<dots> = consS u (scanstring r)"
    by (subst scanstring.simps) (simp add: hex4_digits [OF assms(1)] assms(2) del: hex4.simps)
  finally show ?thesis .
qed

lemma scanstring_pair:
  assumes "hi < 65536" "lo < 65536" "is_high hi" "is_low lo"
  shows "scanstring (u_escape hi @ u_escape lo @ r) = consS (join_surrogates hi lo) (scanstring r)"
proof -
  let ?d = "\<lambda>u r. hexdigit (u div 4096 mod 16) # hexdigit (u div 256 mod 16)
               # hexdigit (u div 16 mod 16) # hexdigit (u mod 16) # r"
  have "scanstring (u_escape hi @ u_escape lo @ r) = scanstring (92 # 117 # ?d hi (92 # 117 # ?d lo r))"
    by (simp add: u_escape_def)
  also have "\<dots> = consS (join_surrogates hi lo) (scanstring r)"
    by (subst scanstring.simps)
       (simp add: hex4_digits [OF assms(1)] hex4_digits [OF assms(2)] assms(3,4) del: hex4.simps)
  finally show ?thesis .
qed

lemma scanstring_plain:
  "S_CHAR c \<Longrightarrow> scanstring (c # r) = consS c (scanstring r)"
  by (subst scanstring.simps) (auto simp: S_CHAR_def)

lemma scanstring_short:
  "unescape e = Some c \<Longrightarrow> e \<noteq> 117 \<Longrightarrow> scanstring (92 # e # r) = consS c (scanstring r)"
  by (subst scanstring.simps) simp

lemma scanstring_quote: "scanstring (34 # r) = Inr ([], r)"
  by (subst scanstring.simps) simp

lemma not_high_scalar: "scalar_value c \<Longrightarrow> \<not> is_high c"
  by (auto simp: scalar_value_def is_high_def)

lemma scanstring_escape_char:
  assumes "scalar_value c"
  shows "scanstring (escape_char c @ r) = consS c (scanstring r)"
proof (cases "S_CHAR c")
  case True
  then show ?thesis by (simp add: escape_char_def scanstring_plain)
next
  case False
  note nS = False
  consider (short) "c \<in> {92, 34, 8, 12, 10, 13, 9}"
    | (pair) "c \<notin> {92, 34, 8, 12, 10, 13, 9}" "65536 \<le> c"
    | (single) "c \<notin> {92, 34, 8, 12, 10, 13, 9}" "c < 65536"
    by fastforce
  then show ?thesis
  proof cases
    case short
    then show ?thesis
      using nS by (auto simp: escape_char_def ascii_escape_unichar_def unescape_def scanstring_short)
  next
    case pair
    have c: "c < 1114112" using assms pair by (auto simp: scalar_value_def)
    have "escape_char c = u_escape (55232 + c div 1024) @ u_escape (56320 + c mod 1024)"
      using nS pair by (simp add: escape_char_def ascii_escape_unichar_def)
    then show ?thesis
      using scanstring_pair [OF high_low(3,4,1,2) [OF pair(2) c], of r] join_high_low [OF pair(2) c]
      by simp
  next
    case single
    have "escape_char c = u_escape c"
      using nS single by (simp add: escape_char_def ascii_escape_unichar_def)
    then show ?thesis
      using scanstring_u_escape [OF single(2) not_high_scalar [OF assms], of r] by simp
  qed
qed

lemma scanstring_concat:
  "unicode_text s \<Longrightarrow> scanstring (concat (map escape_char s) @ 34 # r) = Inr (s, r)"
proof (induction s)
  case Nil
  then show ?case by (simp add: scanstring_quote)
next
  case (Cons c s)
  then have "scalar_value c" "unicode_text s" by (simp_all add: unicode_text_def)
  then show ?case
    using Cons.IH by (simp add: scanstring_escape_char consS_def)
qed

lemma scanstring_encode:
  "unicode_text s \<Longrightarrow> \<exists>t. encode_basestring_ascii s = 34 # t \<and> scanstring (t @ r) = Inr (s, r)"
  by (simp add: encode_basestring_ascii_def scanstring_concat)

lemma hexdigit_less: "x < 16 \<Longrightarrow> hexdigit x < 128"
  by (simp add: hexdigit_def)

lemma hexdigit_ascii: "hexdigit (d mod 16) < 128"
  by (rule hexdigit_less) simp

lemma ascii_u_escape: "ascii (u_escape u)"
  by (simp add: u_escape_def hexdigit_ascii)

lemma ascii_escape_char: "ascii (escape_char c)"
  by (simp add: escape_char_def ascii_escape_unichar_def ascii_u_escape S_CHAR_def)

lemma ascii_concat_escape: "ascii (concat (map escape_char s))"
  by (induction s) (simp_all add: ascii_escape_char)

lemma ascii_encode_basestring: "ascii (encode_basestring_ascii s)"
  by (simp add: encode_basestring_ascii_def ascii_concat_escape)

lemma length_escape_char: "1 \<le> length (escape_char c)"
  by (simp add: escape_char_def ascii_escape_unichar_def u_escape_def)

lemma length_encode_basestring: "length s + 2 \<le> length (encode_basestring_ascii s)"
proof -
  have "length s \<le> length (concat (map escape_char s))"
  proof (induction s)
    case Nil
    then show ?case by simp
  next
    case (Cons c s)
    then show ?case using length_escape_char [of c] by simp
  qed
  then show ?thesis by (simp add: encode_basestring_ascii_def)
qed

lemma digits_0: "digits 0 = [48]"
  by (simp add: digits.simps)

lemma digits_nonempty: "digits n \<noteq> []"
  by (subst digits.simps) simp

lemma is_digit_small: "d < 10 \<Longrightarrow> is_digit (48 + d)"
  by (simp add: is_digit_def)

lemma is_digit_digits: "list_all is_digit (digits n)"
proof (induction n rule: digits.induct)
  case (1 n)
  have "is_digit (48 + n mod 10)" by (rule is_digit_small) simp
  with 1 show ?case
    by (subst digits.simps) (simp add: is_digit_small)
qed

lemma digits_value_snoc: "digits_value (ds @ [d]) = 10 * digits_value ds + (d - 48)"
  by (simp add: digits_value_def)

lemma digits_value_digits: "digits_value (digits n) = n"
proof (induction n rule: digits.induct)
  case (1 n)
  show ?case
  proof (cases "n < 10")
    case True
    then show ?thesis by (subst digits.simps) (simp add: digits_value_def)
  next
    case False
    then show ?thesis
      using 1 by (subst digits.simps) (simp add: digits_value_snoc)
  qed
qed

lemma hd_digits: "0 < n \<Longrightarrow> hd (digits n) \<noteq> 48"
proof (induction n rule: digits.induct)
  case (1 n)
  show ?case
  proof (cases "n < 10")
    case True
    then show ?thesis using 1(2) by (subst digits.simps) simp
  next
    case False
    then have "0 < n div 10" by (simp add: div_greater_zero_iff)
    with 1 False show ?thesis
      by (subst digits.simps) (simp add: digits_nonempty)
  qed
qed

lemma takeWhile_digits_delim:
  "list_all is_digit ds \<Longrightarrow> delim r \<Longrightarrow> takeWhile is_digit (ds @ r) = ds"
  by (cases r) (auto simp: delim_def is_digit_def list_all_iff takeWhile_append)

lemma fraction_delim: "delim r \<Longrightarrow> fraction r = []"
  by (auto simp: delim_def fraction_def split: list.splits)

lemma exponent_delim: "delim r \<Longrightarrow> exponent r = []"
  by (auto simp: delim_def exponent_def split: list.splits)

lemma match_number_digits:
  assumes "delim r"
  shows "match_number (digits n @ r) = Some (PInt (int n), r)"
proof -
  obtain d ds where d: "digits n = d # ds"
    using digits_nonempty [of n] by (cases "digits n") auto
  have dig: "is_digit d" "list_all is_digit ds"
    using is_digit_digits [of n] by (simp_all add: d)
  then have d45: "d \<noteq> 45" by (auto simp: is_digit_def)
  have tw: "takeWhile is_digit (ds @ r) = ds"
    using dig(2) assms by (rule takeWhile_digits_delim)
  have ds0: "d = 48 \<Longrightarrow> ds = []"
  proof (rule ccontr)
    assume "d = 48" "ds \<noteq> []"
    have "n \<noteq> 0"
    proof
      assume "n = 0"
      then have "digits n = [48]" by (simp add: digits_0)
      then show False using d \<open>ds \<noteq> []\<close> by simp
    qed
    then have "hd (digits n) \<noteq> 48" using hd_digits by simp
    then show False using d \<open>d = 48\<close> by simp
  qed
  have v: "digits_value (d # ds) = n"
    using digits_value_digits [of n] by (simp add: d)
  show ?thesis
    unfolding match_number_def d
    using d45 dig(1) tw ds0 v fraction_delim [OF assms] exponent_delim [OF assms]
    by (auto simp: Let_def)
qed

lemma match_number_neg_digits:
  assumes "delim r" "0 < n"
  shows "match_number (45 # digits n @ r) = Some (PInt (- int n), r)"
proof -
  obtain d ds where d: "digits n = d # ds"
    using digits_nonempty [of n] by (cases "digits n") auto
  have dig: "is_digit d" "list_all is_digit ds"
    using is_digit_digits [of n] by (simp_all add: d)
  have tw: "takeWhile is_digit (ds @ r) = ds"
    using dig(2) assms(1) by (rule takeWhile_digits_delim)
  have d48: "d \<noteq> 48" using hd_digits [OF assms(2)] d by simp
  have v: "digits_value (d # ds) = n"
    using digits_value_digits [of n] by (simp add: d)
  show ?thesis
    unfolding match_number_def d
    using dig(1) tw d48 v fraction_delim [OF assms(1)] exponent_delim [OF assms(1)]
    by (auto simp: Let_def)
qed

lemma match_number_int_repr:
  assumes "delim r"
  shows "match_number (int_repr i @ r) = Some (PInt i, r)"
proof (cases "i < 0")
  case True
  then have "0 < nat (- i)" by simp
  from match_number_neg_digits [OF assms this] True show ?thesis
    by (simp add: int_repr_def)
next
  case False
  with match_number_digits [OF assms, of "nat i"] show ?thesis
    by (simp add: int_repr_def)
qed

lemma scan_once_string:
  "scan_once (Suc n) (34 # cs) = (case scanstring cs of Inl e \<Rightarrow> Inl e | Inr (str, r) \<Rightarrow> Inr (PStr str, r))"
  by simp

lemma scan_once_null: "scan_once (Suc n) (lit ''null'' @ r) = Inr (PNone, r)"
  by simp

lemma scan_once_true: "scan_once (Suc n) (lit ''true'' @ r) = Inr (PBool True, r)"
  by simp

lemma scan_once_false: "scan_once (Suc n) (lit ''false'' @ r) = Inr (PBool False, r)"
  by simp

lemma scan_once_empty_list: "scan_once (Suc n) (91 # 93 # r) = Inr (PList [], r)"
  by (simp add: is_ws_def)

lemma scan_once_empty_dict: "scan_once (Suc n) (123 # 125 # r) = Inr (PDict [], r)"
  by (simp add: is_ws_def)

lemma skip_ws_not_ws: "\<not> is_ws c \<Longrightarrow> skip_ws (c # cs) = c # cs"
  by simp

lemma skip_ws_space: "\<not> is_ws c \<Longrightarrow> skip_ws (32 # c # cs) = c # cs"
  by (simp add: is_ws_def)

lemma scan_once_list:
  "\<not> is_ws c \<Longrightarrow> c \<noteq> 93 \<Longrightarrow>
   scan_once (Suc n) (91 # c # cs) =
     (case parse_array n (c # cs) of Inl e \<Rightarrow> Inl e | Inr (vs, r') \<Rightarrow> Inr (PList vs, r'))"
  by simp

lemma scan_once_dict:
  "\<not> is_ws c \<Longrightarrow> c \<noteq> 125 \<Longrightarrow>
   scan_once (Suc n) (123 # c # cs) =
     (case parse_object n (c # cs) of Inl e \<Rightarrow> Inl e | Inr (pairs, r') \<Rightarrow> Inr (PDict (py_dict pairs), r'))"
  by simp

lemma scan_once_digit:
  assumes "is_digit d"
  shows "scan_once (Suc n) (d # cs) =
     (case match_number (d # cs) of None \<Rightarrow> Inl JSONDecodeError | Some vr \<Rightarrow> Inr vr)"
proof -
  have "d \<noteq> 34" "d \<noteq> 123" "d \<noteq> 91" "d \<noteq> 110" "d \<noteq> 116" "d \<noteq> 102" "d \<noteq> 78" "d \<noteq> 73" "d \<noteq> 45"
    using assms by (auto simp: is_digit_def)
  then show ?thesis by simp
qed

lemma scan_once_minus:
  assumes "is_digit d"
  shows "scan_once (Suc n) (45 # d # cs) =
     (case match_number (45 # d # cs) of None \<Rightarrow> Inl JSONDecodeError | Some vr \<Rightarrow> Inr vr)"
proof -
  have "d \<noteq> 73"
    using assms by (auto simp: is_digit_def)
  then show ?thesis by simp
qed

lemma scan_once_int:
  assumes "delim r"
  shows "scan_once (Suc n) (int_repr i @ r) = Inr (PInt i, r)"
proof -
  have m: "match_number (int_repr i @ r) = Some (PInt i, r)"
    using assms by (rule match_number_int_repr)
  obtain d ds where d: "digits (nat \<bar>i\<bar>) = d # ds"
    using digits_nonempty [of "nat \<bar>i\<bar>"] by (cases "digits (nat \<bar>i\<bar>)") auto
  have dig: "is_digit d"
    using is_digit_digits [of "nat \<bar>i\<bar>"] by (simp add: d)
  show ?thesis
  proof (cases "i < 0")
    case True
    then have e: "int_repr i @ r = 45 # d # ds @ r"
      using d by (simp add: int_repr_def abs_if)
    show ?thesis
      using m unfolding e by (simp only: scan_once_minus [OF dig] option.case)
  next
    case False
    then have e: "int_repr i @ r = d # ds @ r"
      using d by (simp add: int_repr_def abs_if)
    show ?thesis
      using m unfolding e by (simp only: scan_once_digit [OF dig] option.case)
  qed
qed

lemma dict_set_fresh: "k \<notin> fst ` set d \<Longrightarrow> dict_set k v d = d @ [(k, v)]"
  by (induction d) auto

lemma py_dict_acc:
  "distinct (map fst (acc @ kvs)) \<Longrightarrow>
   foldl (\<lambda>d kv. dict_set (fst kv) (snd kv) d) acc kvs = acc @ kvs"
proof (induction kvs arbitrary: acc)
  case Nil
  then show ?case by simp
next
  case (Cons kv kvs)
  then have "fst kv \<notin> fst ` set acc" by auto
  then have "dict_set (fst kv) (snd kv) acc = acc @ [kv]"
    by (simp add: dict_set_fresh)
  moreover have "distinct (map fst ((acc @ [kv]) @ kvs))"
    using Cons.prems by simp
  ultimately show ?case
    using Cons.IH [of "acc @ [kv]"] by simp
qed

lemma py_dict_distinct: "distinct (map fst kvs) \<Longrightarrow> py_dict kvs = kvs"
  using py_dict_acc [of "[]" kvs] by (simp add: py_dict_def)

lemma ascii_int_repr: "ascii (int_repr i)"
proof -
  have "ascii ds" if "list_all is_digit ds" for ds
    using that by (induction ds) (auto simp: is_digit_def)
  then have "ascii (digits n)" for n
    using is_digit_digits by blast
  then show ?thesis by (simp add: int_repr_def)
qed

lemma length_int_repr: "1 \<le> length (int_repr i)"
  using digits_nonempty [of "nat i"] digits_nonempty [of "nat (- i)"]
  by (cases "digits (nat i)"; cases "digits (nat (- i))") (auto simp: int_repr_def)

declare scan_once.simps(2) [simp del] parse_array.simps(2) [simp del] parse_object.simps(2) [simp del]

lemma starts_Cons: "starts (c # cs) \<longleftrightarrow> \<not> is_ws c \<and> c \<noteq> 93 \<and> c \<noteq> 125"
  by (simp add: starts_def)

lemma starts_append: "starts s \<Longrightarrow> starts (s @ t)"
  by (cases s) (simp_all add: starts_def)

lemma starts_E: "starts s \<Longrightarrow> (\<And>c cs. s = c # cs \<Longrightarrow> \<not> is_ws c \<Longrightarrow> c \<noteq> 93 \<Longrightarrow> c \<noteq> 125 \<Longrightarrow> P) \<Longrightarrow> P"
  by (cases s) (simp_all add: starts_def)

lemma skip_ws_starts: "starts s \<Longrightarrow> skip_ws (s @ t) = s @ t"
  by (erule starts_E) simp

lemma skip_ws_space_starts: "starts s \<Longrightarrow> skip_ws (32 # s @ t) = s @ t"
  by (erule starts_E) (simp add: is_ws_def)

lemma starts_encode: "starts (encode_basestring_ascii k)"
  by (simp add: encode_basestring_ascii_def starts_def is_ws_def)

lemma starts_int_repr: "starts (int_repr i)"
proof -
  have d: "starts (digits n)" for n
  proof -
    obtain d ds where d: "digits n = d # ds"
      using digits_nonempty [of n] by (cases "digits n") auto
    have "is_digit d" using is_digit_digits [of n] by (simp add: d)
    then show ?thesis by (auto simp: d starts_def is_digit_def is_ws_def)
  qed
  show ?thesis
    using d by (simp add: int_repr_def starts_def is_ws_def)
qed

lemma starts_dumps: "json_exact v \<Longrightarrow> starts (dumps v)"
  by (cases v) (simp_all add: starts_int_repr starts_encode, simp_all add: starts_def is_ws_def)

lemma starts_join: "xs \<noteq> [] \<Longrightarrow> starts (hd xs) \<Longrightarrow> starts (join sep xs)"
  by (induction sep xs rule: join.induct) (simp_all add: starts_append)

lemma delim_simps [simp]: "delim []" "delim (44 # r)" "delim (93 # r)" "delim (125 # r)"
  by (simp_all add: delim_def)

lemma scan_once_list_starts:
  "starts s \<Longrightarrow> scan_once (Suc n) (91 # s @ t) =
     (case parse_array n (s @ t) of Inl e \<Rightarrow> Inl e | Inr (vs, r') \<Rightarrow> Inr (PList vs, r'))"
  by (erule starts_E) (simp add: scan_once_list)

lemma scan_once_dict_starts:
  "starts s \<Longrightarrow> scan_once (Suc n) (123 # s @ t) =
     (case parse_object n (s @ t) of Inl e \<Rightarrow> Inl e | Inr (pairs, r') \<Rightarrow> Inr (PDict (py_dict pairs), r'))"
  by (erule starts_E) (simp add: scan_once_dict)

text \<open>One turn of the loop over the elements of an array.\<close>

lemma parse_array_last:
  assumes "scan_once n (s @ 93 # r) = Inr (x, 93 # r)"
  shows "parse_array (Suc n) (s @ 93 # r) = Inr ([x], r)"
  by (simp add: parse_array.simps assms is_ws_def)

lemma parse_array_next:
  assumes "scan_once n (s @ 44 # 32 # t) = Inr (x, 44 # 32 # t)" "starts t"
    "parse_array n t = Inr (xs, r)"
  shows "parse_array (Suc n) (s @ 44 # 32 # t) = Inr (x # xs, r)"
proof -
  have "skip_ws (32 # t) = t"
    using skip_ws_space_starts [OF assms(2), of "[]"] by simp
  then show ?thesis
    by (simp add: parse_array.simps assms(1,3) is_ws_def)
qed

lemma parse_array_join:
  assumes elem: "\<And>x n r. x \<in> set xs \<Longrightarrow> delim r \<Longrightarrow> length (dumps x) \<le> n \<Longrightarrow>
                   scan_once n (dumps x @ r) = Inr (x, r)"
    and first: "\<And>x. x \<in> set xs \<Longrightarrow> starts (dumps x)"
    and "xs \<noteq> []" "length (join [44, 32] (map dumps xs)) < n"
  shows "parse_array n (join [44, 32] (map dumps xs) @ 93 # r) = Inr (xs, r)"
  using assms
proof (induction xs arbitrary: n)
  case Nil
  then show ?case by simp
next
  case (Cons x xs)
  obtain m where n: "n = Suc m"
    using Cons.prems(4) by (cases n) auto
  show ?case
  proof (cases xs)
    case Nil
    have "scan_once m (dumps x @ 93 # r) = Inr (x, 93 # r)"
      using Cons.prems(4) by (intro Cons.prems(1)) (simp_all add: n Nil)
    then show ?thesis
      using parse_array_last by (simp add: n Nil)
  next
    case (Cons y ys)
    let ?t = "join [44, 32] (map dumps xs) @ 93 # r"
    have e: "join [44, 32] (map dumps (x # xs)) @ 93 # r = dumps x @ 44 # 32 # ?t"
      by (simp add: Cons)
    have len: "length (dumps x) \<le> m" "length (join [44, 32] (map dumps xs)) < m"
      using Cons.prems(4) by (simp_all add: n Cons)
    have 1: "scan_once m (dumps x @ 44 # 32 # ?t) = Inr (x, 44 # 32 # ?t)"
      using len(1) by (intro Cons.prems(1)) simp_all
    have "starts (hd (map dumps xs))"
      using Cons.prems(2) [of y] by (simp add: Cons)
    then have 2: "starts ?t"
      by (intro starts_append starts_join) (simp_all add: Cons)
    have 3: "parse_array m ?t = Inr (xs, r)"
      using len(2) Cons.prems(1,2) by (intro Cons.IH) (simp_all add: Cons)
    show ?thesis
      unfolding n e using 1 2 3 by (rule parse_array_next)
  qed
qed

lemma dumps_item_pair: "map dumps_item (map (map_prod id dumps) kvs) = map json_pair kvs"
  by (simp add: dumps_item_def json_pair_def)

lemma starts_json_pair: "starts (json_pair kv)"
  by (simp add: json_pair_def starts_append starts_encode)

text \<open>One turn of the loop over the members of an object.\<close>

lemma parse_object_member:
  assumes "unicode_text k" "starts (dumps v)"
    and "scan_once n (dumps v @ t) = Inr (v, t)"
  shows "parse_object (Suc n) (json_pair (k, v) @ t) =
     (case skip_ws t of
        [] \<Rightarrow> Inl JSONDecodeError
      | d # r3 \<Rightarrow>
          if d = 125 then Inr ([(k, v)], r3)
          else if d = 44 then
            (case parse_object n (skip_ws r3) of
               Inl e \<Rightarrow> Inl e
             | Inr (pairs, r4) \<Rightarrow> Inr ((k, v) # pairs, r4))
          else Inl JSONDecodeError)"
proof -
  obtain s where s: "encode_basestring_ascii k = 34 # s"
    and sc: "scanstring (s @ 58 # 32 # dumps v @ t) = Inr (k, 58 # 32 # dumps v @ t)"
    using scanstring_encode [OF assms(1), of "58 # 32 # dumps v @ t"] by blast
  have sk: "skip_ws (dumps v @ t) = dumps v @ t"
    using assms(2) by (rule skip_ws_starts)
  have e: "json_pair (k, v) @ t = 34 # s @ 58 # 32 # dumps v @ t"
    by (simp add: json_pair_def s)
  show ?thesis
    unfolding e by (simp add: parse_object.simps sc sk assms(3) is_ws_def)
qed

lemma parse_object_last:
  assumes "unicode_text k" "starts (dumps v)"
    and "scan_once n (dumps v @ 125 # r) = Inr (v, 125 # r)"
  shows "parse_object (Suc n) (json_pair (k, v) @ 125 # r) = Inr ([(k, v)], r)"
  using parse_object_member [OF assms] by (simp add: is_ws_def)

lemma parse_object_next:
  assumes "unicode_text k" "starts (dumps v)"
    and "scan_once n (dumps v @ 44 # 32 # t) = Inr (v, 44 # 32 # t)"
    and "starts t" "parse_object n t = Inr (kvs, r)"
  shows "parse_object (Suc n) (json_pair (k, v) @ 44 # 32 # t) = Inr ((k, v) # kvs, r)"
proof -
  have "skip_ws (32 # t) = t"
    using skip_ws_space_starts [OF assms(4), of "[]"] by simp
  then show ?thesis
    using parse_object_member [OF assms(1-3)] assms(5) by (simp add: is_ws_def)
qed

lemma length_json_pair: "length (dumps (snd kv)) < length (json_pair kv)"
  by (simp add: json_pair_def)

lemma parse_object_join:
  assumes elem: "\<And>kv n r. kv \<in> set kvs \<Longrightarrow> delim r \<Longrightarrow> length (dumps (snd kv)) \<le> n \<Longrightarrow>
                   scan_once n (dumps (snd kv) @ r) = Inr (snd kv, r)"
    and first: "\<And>kv. kv \<in> set kvs \<Longrightarrow> starts (dumps (snd kv))"
    and keys: "\<And>kv. kv \<in> set kvs \<Longrightarrow> unicode_text (fst kv)"
    and "kvs \<noteq> []" "length (join [44, 32] (map json_pair kvs)) < n"
  shows "parse_object n (join [44, 32] (map json_pair kvs) @ 125 # r) = Inr (kvs, r)"
  using assms
proof (induction kvs arbitrary: n)
  case Nil
  then show ?case by simp
next
  case (Cons kv kvs)
  obtain m where n: "n = Suc m"
    using Cons.prems(5) by (cases n) auto
  obtain k v where kv: "kv = (k, v)"
    by (cases kv)
  have k: "unicode_text k" and v: "starts (dumps v)"
    using Cons.prems(2) [of kv] Cons.prems(3) [of kv] by (simp_all add: kv)
  show ?case
  proof (cases kvs)
    case Nil
    have "length (dumps v) \<le> m"
      using Cons.prems(5) length_json_pair [of kv] by (simp add: n Nil kv)
    have "scan_once m (dumps (snd kv) @ 125 # r) = Inr (snd kv, 125 # r)"
      using \<open>length (dumps v) \<le> m\<close> by (intro Cons.prems(1)) (simp_all add: kv)
    then have "scan_once m (dumps v @ 125 # r) = Inr (v, 125 # r)"
      by (simp add: kv)
    then show ?thesis
      using parse_object_last [OF k v] by (simp add: n Nil kv)
  next
    case (Cons kv' kvs')
    let ?t = "join [44, 32] (map json_pair kvs) @ 125 # r"
    have e: "join [44, 32] (map json_pair ((k, v) # kvs)) @ 125 # r = json_pair (k, v) @ 44 # 32 # ?t"
      by (simp add: Cons)
    have len: "length (dumps v) \<le> m" "length (join [44, 32] (map json_pair kvs)) < m"
      using Cons.prems(5) length_json_pair [of kv] by (simp_all add: n Cons kv)
    have "scan_once m (dumps (snd kv) @ 44 # 32 # ?t) = Inr (snd kv, 44 # 32 # ?t)"
      using len(1) by (intro Cons.prems(1)) (simp_all add: kv)
    then have 1: "scan_once m (dumps v @ 44 # 32 # ?t) = Inr (v, 44 # 32 # ?t)"
      by (simp add: kv)
    have 2: "starts ?t"
      by (intro starts_append starts_join) (simp_all add: Cons starts_json_pair)
    have 3: "parse_object m ?t = Inr (kvs, r)"
      using len(2) Cons.prems(1,2,3) by (intro Cons.IH) (simp_all add: Cons)
    show ?thesis
      unfolding n kv e using k v 1 2 3 by (rule parse_object_next)
  qed
qed

lemma json_exact_list: "json_exact (PList xs) \<longleftrightarrow> (\<forall>x\<in>set xs. json_exact x)"
  by (simp add: list_all_iff)

lemma json_exact_dict:
  "json_exact (PDict kvs) \<longleftrightarrow>
     distinct (map fst kvs) \<and> (\<forall>kv\<in>set kvs. unicode_text (fst kv) \<and> json_exact (snd kv))"
  by (auto simp: list_all_iff)

lemma dumps_list: "dumps (PList xs) = 91 # join [44, 32] (map dumps xs) @ [93]"
  by simp

lemma dumps_dict: "dumps (PDict kvs) = 123 # join [44, 32] (map json_pair kvs) @ [125]"
  by (simp add: dumps_item_pair del: map_map)

lemma snd_snds: "snd kv \<in> Basic_BNFs.snds kv"
  by (cases kv) simp

lemma scan_once_dumps:
  "json_exact v \<Longrightarrow> delim r \<Longrightarrow> length (dumps v) \<le> n \<Longrightarrow>
   scan_once n (dumps v @ r) = Inr (v, r)"
proof (induction v arbitrary: n r)
  case PNone
  then obtain m where "n = Suc m" by (cases n) auto
  then show ?case using scan_once_null by simp
next
  case (PBool b)
  then obtain m where "n = Suc m" by (cases n; cases b) auto
  then show ?case using scan_once_true scan_once_false by (cases b) simp_all
next
  case (PInt i)
  then obtain m where "n = Suc m"
    using length_int_repr [of i] by (cases n) auto
  then show ?case using scan_once_int [OF PInt(2)] by simp
next
  case (PFloat l)
  then show ?case by simp
next
  case (PStr s)
  then have u: "unicode_text s" by simp
  obtain t where t: "encode_basestring_ascii s = 34 # t" and sc: "scanstring (t @ r) = Inr (s, r)"
    using scanstring_encode [OF u, of r] by blast
  obtain m where "n = Suc m"
    using PStr(3) t by (cases n) auto
  then show ?case
    by (simp add: t scan_once_string sc)
next
  case (PList xs)
  obtain m where n: "n = Suc m" and m: "length (join [44, 32] (map dumps xs)) < m"
    using PList.prems(3) unfolding dumps_list by (cases n) auto
  show ?case
  proof (cases "xs = []")
    case True
    then show ?thesis by (simp add: n scan_once_empty_list)
  next
    case False
    have ex: "\<And>x. x \<in> set xs \<Longrightarrow> json_exact x"
      using PList.prems(1) unfolding json_exact_list by blast
    have "starts (hd (map dumps xs))"
      using False ex by (cases xs) (simp_all add: starts_dumps)
    then have st: "starts (join [44, 32] (map dumps xs))"
      using False by (intro starts_join) simp_all
    have "parse_array m (join [44, 32] (map dumps xs) @ 93 # r) = Inr (xs, r)"
      using False m by (intro parse_array_join PList.IH ex starts_dumps)
    then show ?thesis
      unfolding n dumps_list using scan_once_list_starts [OF st, of m "93 # r"] by simp
  qed
next
  case (PDict kvs)
  obtain m where n: "n = Suc m" and m: "length (join [44, 32] (map json_pair kvs)) < m"
    using PDict.prems(3) unfolding dumps_dict by (cases n) auto
  have d: "py_dict kvs = kvs"
    using PDict.prems(1) unfolding json_exact_dict by (intro py_dict_distinct) blast
  show ?case
  proof (cases "kvs = []")
    case True
    then show ?thesis by (simp add: n scan_once_empty_dict)
  next
    case False
    have ex: "\<And>kv. kv \<in> set kvs \<Longrightarrow> json_exact (snd kv)"
      and keys: "\<And>kv. kv \<in> set kvs \<Longrightarrow> unicode_text (fst kv)"
      using PDict.prems(1) unfolding json_exact_dict by blast+
    have st: "starts (join [44, 32] (map json_pair kvs))"
      using False by (intro starts_join) (simp_all add: hd_map starts_json_pair)
    have elem: "scan_once n (dumps (snd kv) @ r) = Inr (snd kv, r)"
      if "kv \<in> set kvs" "delim r" "length (dumps (snd kv)) \<le> n" for kv n r
      using PDict.IH [OF that(1) snd_snds ex [OF that(1)] that(2,3)] .
    have "parse_object m (join [44, 32] (map json_pair kvs) @ 125 # r) = Inr (kvs, r)"
      using False m
      by (intro parse_object_join elem ex keys starts_dumps)
    then show ?thesis
      unfolding n dumps_dict using scan_once_dict_starts [OF st, of m "125 # r"] d by simp
  qed
qed

lemma ascii_join:
  "(\<And>x. x \<in> set xs \<Longrightarrow> ascii x) \<Longrightarrow> ascii sep \<Longrightarrow> ascii (join sep xs)"
  by (induction sep xs rule: join.induct) simp_all

lemma ascii_dumps: "json_exact v \<Longrightarrow> ascii (dumps v)"
proof (induction v)
  case (PList xs)
  have "ascii (join [44, 32] (map dumps xs))"
    using PList unfolding json_exact_list by (intro ascii_join) auto
  then show ?case unfolding dumps_list by simp
next
  case (PDict kvs)
  have "ascii (json_pair kv)" if "kv \<in> set kvs" for kv
    using PDict.IH [OF that snd_snds] PDict.prems that unfolding json_exact_dict
    by (simp add: json_pair_def ascii_encode_basestring)
  then have "ascii (join [44, 32] (map json_pair kvs))"
    by (intro ascii_join) auto
  then show ?case unfolding dumps_dict by simp
qed (simp_all add: ascii_int_repr ascii_encode_basestring)

lemma ascii_not_ws_bom: "starts s \<Longrightarrow> ascii s \<Longrightarrow> take 1 s \<noteq> [65279] \<and> skip_ws s = s"
  by (erule starts_E) auto

lemma json_loads_dumps:
  assumes "json_exact v"
  shows "json_loads (dumps v) = Inr v"
proof -
  have s: "starts (dumps v)" and a: "ascii (dumps v)"
    using assms by (simp_all add: starts_dumps ascii_dumps)
  have "scan_once (2 * length (dumps v) + 1) (dumps v @ []) = Inr (v, [])"
    using assms by (intro scan_once_dumps) simp_all
  then show ?thesis
    using ascii_not_ws_bom [OF s a] by (simp add: json_loads_def)
qed

lemma thread_to_dict_exact: "thread_exact t \<Longrightarrow> json_exact (thread_to_dict t)"
  by (simp add: thread_exact_def thread_to_dict_def unicode_text_def scalar_value_def)

lemma dict_to_thread_to_dict: "dict_to_thread (thread_to_dict t) = Inr t"
  by (simp add: thread_to_dict_def dict_to_thread_def dict_get_def)

lemma map_threads_to_dict: "map_threads (map thread_to_dict ts) = Inr ts"
  by (induction ts) (simp_all add: dict_to_thread_to_dict)

lemma threads_of_dicts: "threads_of (PList (map thread_to_dict ts)) = Inr ts"
  by (simp add: threads_of_def py_iter_def map_threads_to_dict)

lemma json_exact_threads:
  "list_all thread_exact ts \<Longrightarrow> json_exact (PList (map thread_to_dict ts))"
  unfolding json_exact_list by (auto simp: list_all_iff thread_to_dict_exact)

text \<open>The metadata blob of an exact thread list, and how the importer reads it back.\<close>

lemma json_bytes_exact:
  assumes "list_all thread_exact ts"
  shows "json_bytes ts = Inr (map of_nat (dumps (PList (map thread_to_dict ts))))"
  unfolding json_bytes_def
  by (intro utf8_encode_ascii ascii_dumps json_exact_threads assms)

lemma metadata_roundtrip:
  assumes "list_all thread_exact ts" "json_bytes ts = Inr jb"
  shows "utf8_decode jb = Inr (dumps (PList (map thread_to_dict ts)))"
    and "json_loads (dumps (PList (map thread_to_dict ts))) = Inr (PList (map thread_to_dict ts))"
proof -
  have e: "json_exact (PList (map thread_to_dict ts))"
    using assms(1) by (rule json_exact_threads)
  have "jb = map of_nat (dumps (PList (map thread_to_dict ts)))"
    using json_bytes_exact [OF assms(1)] assms(2) by simp
  then show "utf8_decode jb = Inr (dumps (PList (map thread_to_dict ts)))"
    using utf8_decode_ascii [OF ascii_dumps [OF e]] by simp
  show "json_loads (dumps (PList (map thread_to_dict ts))) = Inr (PList (map thread_to_dict ts))"
    using e by (rule json_loads_dumps)
qed

section \<open>The exporter and the importer\<close>

lemma pack_I_nat:
  "pack_I bo (int n) = (if n < 2 ^ 32 then Inr (native bo (le4 n)) else Inl StructError)"
  by (simp add: pack_I_def)

lemma write_rows_total:
  "list_all stitch_in_range st \<Longrightarrow> \<exists>bs. write_rows bo st = Inr bs"
  by (cases "write_rows bo st") (auto dest: write_rows_Inl)

text \<open>The exporter, case by case.\<close>

lemma read_main_Inr:
  "read_main bo st th = Inr bs \<longleftrightarrow>
     (\<exists>jb rows. json_bytes th = Inr jb \<and> write_rows bo st = Inr rows
        \<and> length st < 2 ^ 32 \<and> length jb < 2 ^ 32
        \<and> bs = native bo (le4 (length st)) @ rows @ native bo (le4 (length jb)) @ jb)"
  unfolding read_main_def json_bytes_def Let_def pack_I_nat
  by (auto split: sum.splits if_splits)

lemma read_main_Inl:
  "read_main bo st th = Inl e \<longleftrightarrow>
     (json_bytes th = Inl e
      \<or> (\<exists>jb. json_bytes th = Inr jb \<and> e = StructError
            \<and> (\<not> length st < 2 ^ 32 \<or> \<not> list_all stitch_in_range st \<or> \<not> length jb < 2 ^ 32)))"
  unfolding read_main_def json_bytes_def Let_def pack_I_nat
  by (auto split: sum.splits if_splits dest: write_rows_Inl write_rows_Inr)

lemma unpack_I_short: "length f < 4 \<Longrightarrow> unpack_I bo (take 4 f) = Inl StructError"
  by (simp add: unpack_I_def)

lemma unpack_I_take:
  "4 \<le> length f \<Longrightarrow> unpack_I bo (take 4 f) = Inr (from_le (native bo (take 4 f)))"
  by (simp add: unpack_I_def)

lemma unpack_I_native [simp]: "n < 2 ^ 32 \<Longrightarrow> unpack_I bo (native bo (le4 n)) = Inr n"
  by (simp add: unpack_I_def from_le_le4)

text \<open>
  The importer on a file that holds the count, the stitches and the size: what is left is
  the decoding of the metadata.
\<close>

lemma write_main_framed:
  assumes "n < 2 ^ 32" "m < 2 ^ 32" "length rows = 12 * n"
    "read_rows bo n (rows @ native bo (le4 m) @ rest) = Inr (st, native bo (le4 m) @ rest)"
  shows "write_main bo (native bo (le4 n) @ rows @ native bo (le4 m) @ rest) =
     (case utf8_decode (take m rest) of
        Inl e \<Rightarrow> Inl e
      | Inr str \<Rightarrow>
         (case json_loads str of
            Inl e \<Rightarrow> Inl e
          | Inr thread_dicts \<Rightarrow>
             (case threads_of thread_dicts of
                Inl e \<Rightarrow> Inl e
              | Inr threads \<Rightarrow> Inr (st, threads))))"
  using assms by (simp add: write_main_def)

lemma decode_encode:
  assumes "list_all thread_exact threads" "read_main bo stitches threads = Inr bs"
  shows "write_main bo bs = Inr (stitches, threads)"
proof -
  from assms(2) obtain jb rows where jb: "json_bytes threads = Inr jb"
    and rows: "write_rows bo stitches = Inr rows"
    and n: "length stitches < 2 ^ 32" and m: "length jb < 2 ^ 32"
    and bs: "bs = native bo (le4 (length stitches)) @ rows @ native bo (le4 (length jb)) @ jb"
    unfolding read_main_Inr by blast
  have l: "length rows = 12 * length stitches"
    using write_rows_Inr [OF rows] by simp
  have r: "read_rows bo (length stitches) (rows @ native bo (le4 (length jb)) @ jb)
      = Inr (stitches, native bo (le4 (length jb)) @ jb)"
    using rows by (rule read_rows_write_rows)
  show ?thesis
    unfolding bs write_main_framed [OF n m l r]
    using metadata_roundtrip [OF assms(1) jb] by (simp add: threads_of_dicts)
qed

section \<open>The step budget of the parser is never used up\<close>







lemma drop_shrinks: "s \<noteq> [] \<Longrightarrow> 0 < k \<Longrightarrow> length (drop k s) < length s"
  by (cases s) auto








lemma appE_Inl_iff: "appE x r = Inl e \<longleftrightarrow> r = Inl e"
  by (cases r) (simp_all add: appE_def)

lemma utf8_encode_error: "utf8_encode s = Inl e \<Longrightarrow> e = UnicodeEncodeError"
  by (induction s) (auto simp: appE_Inl_iff split: if_splits)

section \<open>The container: what is proved\<close>

lemma example_exact: "list_all thread_exact example_threads"
  by (simp add: example_threads_def thread_exact_def unicode_text_def scalar_value_def)

lemma example_json_bytes: "json_bytes example_threads = Inr example_json"
  by code_simp

lemma example_rows:
  "write_rows Little example_stitches =
     Inr [0, 0, 0, 0, 0, 0, 0, 0, 1, 0, 0, 0, 10, 0, 0, 0, 20, 0, 0, 0, 0, 0, 0, 0]"
  by (simp add: example_stitches_def pack_iii_def pack_i_def in_i32_def native_def le4_def)

lemma length_example_json: "length example_json = 135"
  by (simp add: example_json_def)

lemma example_encode: "Encode Little example_stitches example_threads = Inr example_container"
  using example_json_bytes example_rows
  by (simp add: read_main_def json_bytes_def length_example_json pack_I_def
      example_stitches_def native_def le4_def example_container_def)

lemma example_decode:
  "Decode Little example_container = Inr (example_stitches, example_threads)"
  using example_exact example_encode by (rule decode_encode)

lemma empty_json_bytes: "json_bytes [] = Inr [91, 93]"
  by (simp add: json_bytes_def)




text \<open>
  Claim C2 (truncation). A file shorter than \<open>4 + 12 * declared_count + 4\<close> bytes, the
  count being the number held in its first four bytes, makes the importer raise
  \<^verbatim>\<open>struct.error\<close>, the exception that stands for the specification's
  \<^verbatim>\<open>TruncatedInputError\<close>, and no other. A file of fewer than four bytes has no count
  to declare and fails in the same way.
\<close>

theorem truncated_input:
  assumes "length f < 4 + 12 * declared_count bo f + 4"
  shows "Decode bo f = Inl StructError"
proof (cases "length f < 4")
  case True
  show ?thesis
    by (simp only: write_main_def unpack_I_short [OF True] sum.case)
next
  case False
  then have h: "unpack_I bo (take 4 f) = Inr (declared_count bo f)"
    by (simp add: unpack_I_take declared_count_def)
  show ?thesis
  proof (cases "read_rows bo (declared_count bo f) (drop 4 f)")
    case (Inl e)
    from read_rows_Inl [OF Inl] have "e = StructError"
      by simp
    then show ?thesis
      by (simp only: write_main_def h Inl sum.case)
  next
    case (Inr r)
    obtain rows f1 where r: "r = (rows, f1)"
      by (cases r)
    from read_rows_Inr [OF Inr [unfolded r]]
    have "f1 = drop (12 * declared_count bo f) (drop 4 f)"
      "12 * declared_count bo f \<le> length (drop 4 f)"
      by auto
    then have "length f1 < 4"
      using assms by simp
    then have "unpack_I bo (take 4 f1) = Inl StructError"
      by (rule unpack_I_short)
    then show ?thesis
      by (simp only: write_main_def h Inr r sum.case prod.case)
  qed
qed

text \<open>
  The theorem at a file that declares one stitch and holds it, with a size field cut to
  three bytes, and at the empty file on a big-endian host.
\<close>

lemma cut_count:
  "declared_count Little [1, 0, 0, 0, 0, 0, 0, 0, 0, 0, 0, 0, 0, 0, 0, 0, 5, 0, 0] = 1"
  by (simp add: declared_count_def from_le_def native_def)

theorem truncated_input_witness:
  "Decode Little [1, 0, 0, 0, 0, 0, 0, 0, 0, 0, 0, 0, 0, 0, 0, 0, 5, 0, 0] = Inl StructError
   \<and> Decode Big [] = Inl StructError"
proof -
  have "length [1, 0, 0, 0, 0, 0, 0, 0, 0, 0, 0, 0, 0, 0, 0, 0, 5, 0, 0 :: byte]
      < 4 + 12 * declared_count Little [1, 0, 0, 0, 0, 0, 0, 0, 0, 0, 0, 0, 0, 0, 0, 0, 5, 0, 0] + 4"
    unfolding cut_count by simp
  moreover have "length ([] :: byte list) < 4 + 12 * declared_count Big [] + 4"
    by simp
  ultimately show ?thesis
    using truncated_input by blast
qed

text \<open>
  Claim C4 (size law). The bytes that the exporter writes for \<open>N\<close> stitches and a thread
  list whose JSON text has \<open>M\<close> bytes in UTF-8 are \<open>8 + 12 * N + M\<close> bytes.
\<close>

theorem size_law:
  assumes "Encode bo stitches threads = Inr bs"
  shows "\<exists>jb. json_bytes threads = Inr jb \<and> length bs = 8 + 12 * length stitches + length jb"
  using assms unfolding read_main_Inr by (auto dest: write_rows_Inr)

theorem size_law_witness:
  "json_bytes example_threads = Inr example_json
   \<and> length example_container = 8 + 12 * length example_stitches + length example_json"
  using size_law [OF example_encode] example_json_bytes by simp

text \<open>
  Claim C9 (trailing bytes are ignored). Let a container hold at least the bytes that its
  count and its size declare. Then the importer gives the same result with any bytes
  appended: it stops reading at the end of the declared metadata.
\<close>

theorem trailing_bytes_ignored:
  assumes "container_size bo b \<le> length b"
  shows "Decode bo (b @ s) = Decode bo b"
proof -
  let ?n = "declared_count bo b"
  have len: "8 + 12 * ?n + declared_size bo b \<le> length b"
    using assms by (simp add: container_size_def)
  then have t4: "take 4 (b @ s) = take 4 b"
    by simp
  have h: "unpack_I bo (take 4 b) = Inr ?n"
    using len by (simp add: unpack_I_take declared_count_def)
  have n: "12 * ?n \<le> length (drop 4 b)"
    using len by simp
  obtain rows where rows: "read_rows bo ?n (drop 4 b) = Inr (rows, drop (12 * ?n) (drop 4 b))"
  proof (cases "read_rows bo ?n (drop 4 b)")
    case (Inl e)
    from read_rows_Inl [OF this] n show ?thesis
      by simp
  next
    case (Inr r)
    obtain rows f1 where r: "r = (rows, f1)"
      by (cases r)
    from read_rows_Inr [OF Inr [unfolded r]] have f1: "f1 = drop (12 * ?n) (drop 4 b)"
      by blast
    from Inr r have "read_rows bo ?n (drop 4 b) = Inr (rows, f1)"
      by (simp only:)
    then have "read_rows bo ?n (drop 4 b) = Inr (rows, drop (12 * ?n) (drop 4 b))"
      unfolding f1 .
    then show ?thesis
      by (rule that)
  qed
  let ?f1 = "drop (12 * ?n) (drop 4 b)"
  have rows': "read_rows bo ?n (drop 4 (b @ s)) = Inr (rows, ?f1 @ s)"
    using read_rows_append [OF n, of bo s] rows len by simp
  have f1: "4 + declared_size bo b \<le> length ?f1"
    using len by simp
  then have t4': "take 4 (?f1 @ s) = take 4 ?f1"
    by simp
  have sz: "unpack_I bo (take 4 ?f1) = Inr (declared_size bo b)"
    using f1 by (simp add: unpack_I_take declared_size_def add.commute)
  have blob: "take (declared_size bo b) (drop 4 (?f1 @ s))
      = take (declared_size bo b) (drop 4 ?f1)"
    using f1 by simp
  show ?thesis
    by (simp only: write_main_def t4 h rows rows' t4' sz sum.case prod.case Let_def blob)
qed

text \<open>The theorem at the container of the end-to-end example, with three bytes appended.\<close>

lemma example_container_size: "container_size Little example_container = 167"
  by (simp add: container_size_def declared_size_def declared_count_def example_container_def
      from_le_def native_def)

lemma length_example_container: "length example_container = 167"
  by (simp add: example_container_def length_example_json)

theorem trailing_bytes_ignored_witness:
  "Decode Little (example_container @ [1, 2, 3]) = Inr (example_stitches, example_threads)"
proof -
  have "container_size Little example_container \<le> length example_container"
    by (simp add: example_container_size length_example_container)
  from trailing_bytes_ignored [OF this] show ?thesis
    by (simp add: example_decode)
qed

section \<open>The byte layout\<close>

lemma le_value_from_le: "length bs = 4 \<Longrightarrow> le_value bs = from_le bs"
proof -
  assume "length bs = 4"
  then obtain a b c d where "bs = [a, b, c, d]"
    by (cases bs; cases "tl bs"; cases "tl (tl bs)"; cases "tl (tl (tl bs))") auto
  then show ?thesis
    by (simp add: le_value_def from_le_def)
qed

lemma u32_host_native: "n < 2 ^ 32 \<Longrightarrow> u32_host bo n (native bo (le4 n))"
  by (simp add: u32_host_def u32_le_def le_value_from_le from_le_le4)

lemma i32_le_signed32: "i32_le v bs \<longleftrightarrow> length bs = 4 \<and> signed32 (le_value bs) = v"
  by (simp add: i32_le_def signed32_def)

lemma i32_host_pack_i:
  assumes "pack_i bo v = Inr b"
  shows "i32_host bo v b"
proof -
  have v: "in_i32 v" and b: "b = native bo (le4 (nat (v mod 2 ^ 32)))"
    using assms by (auto simp: pack_i_def split: if_splits)
  have "nat (v mod 2 ^ 32) < 2 ^ 32"
    by simp
  then have "from_le (le4 (nat (v mod 2 ^ 32))) = nat (v mod 2 ^ 32)"
    by (rule from_le_le4)
  then have lv: "le_value (le4 (nat (v mod 2 ^ 32))) = nat (v mod 2 ^ 32)"
    by (simp only: le_value_from_le [OF length_le4])
  show ?thesis
    unfolding b i32_host_def i32_le_signed32
    by (simp only: native_native length_le4 lv signed32_mod [OF v] simp_thms)
qed

lemma field_append: "length pre = off \<Longrightarrow> length x = 4 \<Longrightarrow> field off (pre @ x @ post) = x"
  by (simp add: field_def)

lemma stitch_at_pack:
  assumes "pack_iii bo row = Inr b"
  shows "stitch_at bo (pre @ b @ post) (length pre) row"
proof -
  obtain x y c where row: "row = (x, y, c)"
    by (cases row)
  from assms obtain bx "by" bc where p: "pack_i bo x = Inr bx" "pack_i bo y = Inr by"
    "pack_i bo c = Inr bc" and b: "b = bx @ by @ bc"
    by (auto simp: pack_iii_def row split: sum.splits)
  have l: "length bx = 4" "length by = 4" "length bc = 4"
    using unpack_i_pack_i p by blast+
  have "field (length pre) (pre @ bx @ (by @ bc @ post)) = bx"
    using l by (intro field_append) simp_all
  moreover have "field (length pre + 4) ((pre @ bx) @ by @ (bc @ post)) = by"
    using l by (intro field_append) simp_all
  moreover have "field (length pre + 8) ((pre @ bx @ by) @ bc @ post) = bc"
    using l by (intro field_append) simp_all
  ultimately show ?thesis
    using i32_host_pack_i p by (simp add: stitch_at_def row b)
qed

lemma stitches_at_rows:
  "write_rows bo st = Inr rows \<Longrightarrow> stitches_at bo (pre @ rows @ post) (length pre) st"
proof (induction st arbitrary: pre rows)
  case Nil
  then show ?case by simp
next
  case (Cons row st)
  from Cons.prems obtain b rows' where b: "pack_iii bo row = Inr b"
    and rows': "write_rows bo st = Inr rows'" and rows: "rows = b @ rows'"
    by (cases "pack_iii bo row"; cases "write_rows bo st") auto
  have l: "length b = 12"
    using unpack_iii_pack_iii [OF b] by simp
  have "stitch_at bo (pre @ b @ (rows' @ post)) (length pre) row"
    using b by (rule stitch_at_pack)
  moreover have "stitches_at bo ((pre @ b) @ rows' @ post) (length (pre @ b)) st"
    using rows' by (rule Cons.IH)
  ultimately show ?case
    by (simp add: rows l)
qed

lemma big_rows:
  "write_rows Big [(1, 0, 0)] = Inr [0, 0, 0, 1, 0, 0, 0, 0, 0, 0, 0, 0]"
  by (simp add: pack_iii_def pack_i_def in_i32_def native_def le4_def)

lemma big_encode:
  "Encode Big [(1, 0, 0)] [] =
     Inr [0, 0, 0, 1, 0, 0, 0, 1, 0, 0, 0, 0, 0, 0, 0, 0, 0, 0, 0, 2, 91, 93]"
  using empty_json_bytes big_rows
  by (simp add: read_main_def json_bytes_def pack_I_def native_def le4_def)

text \<open>
  Claim C5 (byte layout), as it is stated: the count is written as a little-endian
  integer. It is not on a big-endian host: the exporter calls \<^verbatim>\<open>struct.pack\<close> with the
  formats \<^verbatim>\<open>"I"\<close> and \<^verbatim>\<open>"iii"\<close>, which take the byte order of the host. There the first
  four bytes of the container of the single stitch \<open>(1, 0, 0)\<close> are \<open>0 0 0 1\<close>, which
  read as a little-endian number are 16777216.
\<close>

theorem layout_little_endian_counterexample:
  "Encode Big [(1, 0, 0)] [] =
     Inr [0, 0, 0, 1, 0, 0, 0, 1, 0, 0, 0, 0, 0, 0, 0, 0, 0, 0, 0, 2, 91, 93]
   \<and> \<not> u32_le (length [(1, 0, 0) :: stitch])
         (field 0 [0, 0, 0, 1, 0, 0, 0, 1, 0, 0, 0, 0, 0, 0, 0, 0, 0, 0, 0, 2, 91, 93])"
  using big_encode by (simp add: u32_le_def le_value_def field_def)

text \<open>
  Claim C5, amended: the layout is the one claimed, in the byte order of the host. The
  bytes that the exporter writes are, in this order and with nothing between them: the
  number of stitches as an unsigned 4-byte integer at offset 0; the stitches in their
  order, twelve bytes each from offset 4 on, as three signed 4-byte integers in two's
  complement; the number of bytes of the JSON text as an unsigned 4-byte integer; the
  bytes of the JSON text. The importer reads the same fields with the same widths in the
  same byte order: its three reads return the count, the stitches and the size. On a
  little-endian host the integers are little-endian.
\<close>

theorem container_layout:
  assumes "Encode bo stitches threads = Inr bs"
  shows "\<exists>jb. json_bytes threads = Inr jb
     \<and> length bs = 8 + 12 * length stitches + length jb
     \<and> u32_host bo (length stitches) (field 0 bs)
     \<and> stitches_at bo bs 4 stitches
     \<and> u32_host bo (length jb) (field (4 + 12 * length stitches) bs)
     \<and> drop (8 + 12 * length stitches) bs = jb
     \<and> unpack_I bo (take 4 bs) = Inr (length stitches)
     \<and> read_rows bo (length stitches) (drop 4 bs)
         = Inr (stitches, drop (4 + 12 * length stitches) bs)
     \<and> unpack_I bo (take 4 (drop (4 + 12 * length stitches) bs)) = Inr (length jb)
     \<and> (bo = Little \<longrightarrow> u32_le (length stitches) (field 0 bs)
          \<and> u32_le (length jb) (field (4 + 12 * length stitches) bs))"
proof -
  from assms obtain jb rows where jb: "json_bytes threads = Inr jb"
    and rows: "write_rows bo stitches = Inr rows"
    and n: "length stitches < 2 ^ 32" and m: "length jb < 2 ^ 32"
    and bs: "bs = native bo (le4 (length stitches)) @ rows @ native bo (le4 (length jb)) @ jb"
    unfolding read_main_Inr by blast
  let ?c = "native bo (le4 (length stitches))"
  let ?z = "native bo (le4 (length jb))"
  have l: "length rows = 12 * length stitches"
    using write_rows_Inr [OF rows] by simp
  have f0: "field 0 bs = ?c"
    using field_append [of "[]" 0 ?c "rows @ ?z @ jb"] by (simp add: bs)
  have fz: "field (4 + 12 * length stitches) bs = ?z"
    using field_append [of "?c @ rows" "4 + 12 * length stitches" ?z jb] l by (simp add: bs)
  have st: "stitches_at bo bs 4 stitches"
    using stitches_at_rows [OF rows, of ?c "?z @ jb"] by (simp add: bs)
  have r: "read_rows bo (length stitches) (drop 4 bs)
      = Inr (stitches, drop (4 + 12 * length stitches) bs)"
    using read_rows_write_rows [OF rows, of "?z @ jb"] l by (simp add: bs)
  have u0: "u32_host bo (length stitches) ?c" and uz: "u32_host bo (length jb) ?z"
    using n m by (simp_all add: u32_host_native)
  have little: "bo = Little \<longrightarrow> u32_le (length stitches) ?c \<and> u32_le (length jb) ?z"
    using u0 uz by (auto simp: u32_host_def native_def)
  have "length bs = 8 + 12 * length stitches + length jb"
    "drop (8 + 12 * length stitches) bs = jb"
    "unpack_I bo (take 4 bs) = Inr (length stitches)"
    "unpack_I bo (take 4 (drop (4 + 12 * length stitches) bs)) = Inr (length jb)"
    using n m l by (simp_all add: bs)
  then show ?thesis
    using jb st r u0 uz little unfolding f0 fz by blast
qed

text \<open>
  The theorem at the end-to-end example on a little-endian host: the count 2 and the
  size 135 in little-endian form, the first stitch at offset 4.
\<close>

theorem container_layout_witness:
  "Encode Little example_stitches example_threads = Inr example_container
   \<and> u32_le 2 (field 0 example_container)
   \<and> u32_le 135 (field 28 example_container)
   \<and> stitches_at Little example_container 4 example_stitches
   \<and> drop 32 example_container = example_json"
proof -
  have len: "length example_stitches = 2"
    by (simp add: example_stitches_def)
  from container_layout [OF example_encode] example_json_bytes
  have "u32_le (length example_stitches) (field 0 example_container)"
    "u32_le (length example_json) (field (4 + 12 * length example_stitches) example_container)"
    "stitches_at Little example_container 4 example_stitches"
    "drop (8 + 12 * length example_stitches) example_container = example_json"
    by auto
  then show ?thesis
    using example_encode unfolding len length_example_json by simp
qed

section \<open>When the exporter fails\<close>

lemma long_thread_exact: "list_all thread_exact [long_thread]"
  by (simp add: long_thread_def thread_exact_def unicode_text_def scalar_value_def list_all_iff)

lemma length_dumps_description:
  assumes "description t = PStr s"
  shows "length s \<le> length (dumps (PList (map thread_to_dict [t])))"
  using length_encode_basestring [of s] assms
  by (simp add: thread_to_dict_def dumps_item_def)

lemma length_dumps_long:
  "2 ^ 32 \<le> length (dumps (PList (map thread_to_dict [long_thread])))"
proof -
  have "description long_thread = PStr (replicate (2 ^ 32) 97)"
    by (simp add: long_thread_def)
  from length_dumps_description [OF this] show ?thesis
    by simp
qed

lemma long_json_bytes:
  "\<exists>jb. json_bytes [long_thread] = Inr jb \<and> \<not> length jb < 2 ^ 32"
  using json_bytes_exact [OF long_thread_exact] length_dumps_long by simp

lemma long_encode: "Encode Little [] [long_thread] = Inl StructError"
  using long_json_bytes unfolding read_main_Inl by blast

text \<open>
  Claim C10 (the exporter is partial on out-of-range integers), as it is stated: when
  every component of every stitch fits a signed 32-bit integer and the number of stitches
  fits an unsigned one, the exporter succeeds. It does not when the JSON text of the
  thread list has \<open>2 ^ 32\<close> bytes or more: the size is packed with \<^verbatim>\<open>struct.pack("I",
  threads_size)\<close> as well. With no stitch at all and one thread whose description has
  \<open>2 ^ 32\<close> characters the exporter raises \<^verbatim>\<open>struct.error\<close>.
\<close>

theorem encode_succeeds_counterexample:
  "list_all stitch_in_range [] \<and> length ([] :: stitch list) < 2 ^ 32
   \<and> Encode Little [] [long_thread] = Inl StructError"
  using long_encode by simp

text \<open>
  Claim C10, amended. A stitch with a component outside the signed 32-bit range makes the
  exporter raise an exception: no value is wrapped or cut (the exception is
  \<^verbatim>\<open>struct.error\<close> once the metadata has been serialised). When every component fits
  and the number of stitches is below \<open>2 ^ 32\<close>, packing the count and packing the
  stitches do not fail; and the exporter as a whole succeeds when, besides, the JSON
  metadata has fewer than \<open>2 ^ 32\<close> bytes.
\<close>

theorem encode_partial:
  "(\<not> list_all stitch_in_range stitches \<longrightarrow>
      (\<exists>e. Encode bo stitches threads = Inl e)
      \<and> (json_bytes threads = Inr jb \<longrightarrow> Encode bo stitches threads = Inl StructError))
   \<and> (list_all stitch_in_range stitches \<and> length stitches < 2 ^ 32 \<longrightarrow>
        (\<exists>count_bytes rows. pack_I bo (int (length stitches)) = Inr count_bytes
            \<and> write_rows bo stitches = Inr rows)
        \<and> (json_bytes threads = Inr jb \<and> length jb < 2 ^ 32 \<longrightarrow>
             (\<exists>bs. Encode bo stitches threads = Inr bs)))"
proof (intro conjI impI)
  assume a: "\<not> list_all stitch_in_range stitches"
  show "\<exists>e. Encode bo stitches threads = Inl e"
  proof (cases "json_bytes threads")
    case (Inl e)
    then show ?thesis unfolding read_main_Inl by blast
  next
    case (Inr jb')
    then show ?thesis using a unfolding read_main_Inl by blast
  qed
next
  assume "\<not> list_all stitch_in_range stitches" "json_bytes threads = Inr jb"
  then show "Encode bo stitches threads = Inl StructError"
    unfolding read_main_Inl by blast
next
  assume a: "list_all stitch_in_range stitches \<and> length stitches < 2 ^ 32"
  then obtain rows where "write_rows bo stitches = Inr rows"
    using write_rows_total by blast
  then show "\<exists>count_bytes rows. pack_I bo (int (length stitches)) = Inr count_bytes
            \<and> write_rows bo stitches = Inr rows"
    using a by (simp add: pack_I_nat)
next
  assume a: "list_all stitch_in_range stitches \<and> length stitches < 2 ^ 32"
    and b: "json_bytes threads = Inr jb \<and> length jb < 2 ^ 32"
  from a obtain rows where "write_rows bo stitches = Inr rows"
    using write_rows_total by blast
  with a b show "\<exists>bs. Encode bo stitches threads = Inr bs"
    unfolding read_main_Inr by blast
qed

text \<open>
  The theorem at a stitch whose \<open>x\<close> is \<open>2 ^ 31\<close>, and at the end-to-end example.
\<close>

theorem encode_partial_witness:
  "Encode Little [(2147483648, 0, 0)] [] = Inl StructError
   \<and> (\<exists>bs. Encode Little example_stitches example_threads = Inr bs)"
proof -
  have 1: "\<not> list_all stitch_in_range [(2147483648, 0, 0)]"
    by (simp add: stitch_in_range_def in_i32_def)
  have 2: "list_all stitch_in_range example_stitches \<and> length example_stitches < 2 ^ 32"
    by (simp add: example_stitches_def stitch_in_range_def in_i32_def)
  have 3: "json_bytes example_threads = Inr example_json \<and> length example_json < 2 ^ 32"
    by (simp add: example_json_bytes length_example_json)
  from encode_partial [of "[(2147483648, 0, 0)]" Little "[]" "[91, 93]"] 1 empty_json_bytes
  have "Encode Little [(2147483648, 0, 0)] [] = Inl StructError"
    by blast
  moreover from encode_partial [of example_stitches Little example_threads example_json] 2 3
  have "\<exists>bs. Encode Little example_stitches example_threads = Inr bs"
    by blast
  ultimately show ?thesis
    by blast
qed

section \<open>Metadata that is not a list of thread objects\<close>

















end
